theory Spec2Isabelle
  imports Main
begin

section \<open>Python values used by \<open>graph_logic.py\<close>\<close>

text \<open>
  A matrix entry of \<open>Graph.L\<close> and \<open>Graph.initial_adj\<close> is either a Python integer
  (unbounded) or \<open>float('inf')\<close>, the value of \<open>self.INF\<close>.
\<close>

datatype weight = Num int | PInf

text \<open>\<open>a + b\<close>, \<open>a < b\<close> on such values; \<open>a == b\<close> and \<open>a != b\<close> are HOL equality.\<close>

fun wadd :: "weight \<Rightarrow> weight \<Rightarrow> weight" where
  "wadd (Num a) (Num b) = Num (a + b)"
| "wadd _ _ = PInf"

fun wlt :: "weight \<Rightarrow> weight \<Rightarrow> bool" where
  "wlt (Num a) (Num b) = (a < b)"
| "wlt (Num a) PInf = True"
| "wlt PInf _ = False"

text \<open>
  List subscription \<open>xs[i]\<close>: an index in \<open>[0, len)\<close> is taken as it is, one in
  \<open>[-len, 0)\<close> counts from the end, any other raises \<open>IndexError\<close>. A raised
  exception is the value \<open>None\<close> throughout.
\<close>

definition py_pos :: "nat \<Rightarrow> int \<Rightarrow> nat option" where
  "py_pos len i =
     (if 0 \<le> i \<and> i < int len then Some (nat i)
      else if - int len \<le> i \<and> i < 0 then Some (nat (int len + i))
      else None)"

definition py_index :: "'a list \<Rightarrow> int \<Rightarrow> 'a option" where
  "py_index xs i = (case py_pos (length xs) i of None \<Rightarrow> None | Some p \<Rightarrow> Some (xs ! p))"

definition py_setitem :: "'a list \<Rightarrow> int \<Rightarrow> 'a \<Rightarrow> 'a list option" where
  "py_setitem xs i v = (case py_pos (length xs) i of None \<Rightarrow> None | Some p \<Rightarrow> Some (xs[p := v]))"

text \<open>\<open>m[i][j]\<close> and \<open>m[i][j] = v\<close> on a list of lists (the row is mutated in place).\<close>

definition get2 :: "'a list list \<Rightarrow> int \<Rightarrow> int \<Rightarrow> 'a option" where
  "get2 m i j = (case py_index m i of None \<Rightarrow> None | Some row \<Rightarrow> py_index row j)"

definition set2 :: "'a list list \<Rightarrow> int \<Rightarrow> int \<Rightarrow> 'a \<Rightarrow> 'a list list option" where
  "set2 m i j v =
     (case py_index m i of None \<Rightarrow> None
      | Some row \<Rightarrow> (case py_setitem row j v of None \<Rightarrow> None
                    | Some row' \<Rightarrow> py_setitem m i row'))"

subsection \<open>\<open>str.strip\<close>, \<open>str.split\<close> and \<open>int\<close> on ASCII text\<close>

definition is_space :: "char \<Rightarrow> bool" where
  "is_space c = (of_char c \<in> {9, 10, 11, 12, 13, 28, 29, 30, 31, 32 :: nat})"

definition py_strip :: "string \<Rightarrow> string" where
  "py_strip s = rev (dropWhile is_space (rev (dropWhile is_space s)))"

fun split_from :: "string \<Rightarrow> string \<Rightarrow> string list" where
  "split_from cur [] = (if cur = [] then [] else [cur])"
| "split_from cur (c # cs) =
     (if is_space c then (if cur = [] then split_from [] cs else cur # split_from [] cs)
      else split_from (cur @ [c]) cs)"

definition py_split :: "string \<Rightarrow> string list" where
  "py_split s = split_from [] s"

definition is_digit :: "char \<Rightarrow> bool" where
  "is_digit c = (48 \<le> (of_char c :: nat) \<and> (of_char c :: nat) \<le> 57)"

text \<open>
  Decimal digits with single underscores between them, as \<open>int\<close> accepts; the flag
  says that the previous character was a digit.
\<close>

fun py_digits :: "nat \<Rightarrow> bool \<Rightarrow> string \<Rightarrow> nat option" where
  "py_digits acc prev [] = (if prev then Some acc else None)"
| "py_digits acc prev (c # cs) =
     (if is_digit c then py_digits (10 * acc + (of_char c - 48)) True cs
      else if c = CHR ''_'' \<and> prev then
        (case cs of [] \<Rightarrow> None | d # _ \<Rightarrow> if is_digit d then py_digits acc False cs else None)
      else None)"

text \<open>\<open>int(s)\<close>; \<open>None\<close> is \<open>ValueError\<close>.\<close>

definition py_int :: "string \<Rightarrow> int option" where
  "py_int s =
     (case py_strip s of
        [] \<Rightarrow> None
      | c # cs \<Rightarrow>
          if c = CHR ''-'' then map_option (\<lambda>n. - int n) (py_digits 0 False cs)
          else if c = CHR ''+'' then map_option int (py_digits 0 False cs)
          else map_option int (py_digits 0 False (c # cs)))"

section \<open>The class \<open>Graph\<close>\<close>

record graph =
  num_vertices :: int
  L :: "weight list list"
  P :: "int list list list"
  initial_adj :: "weight list list"

text \<open>\<open>Graph.__init__\<close>\<close>

definition Graph_init :: graph where
  "Graph_init = \<lparr>num_vertices = 0, L = [], P = [], initial_adj = []\<rparr>"

subsection \<open>\<open>load_from_file\<close>\<close>

text \<open>
  The loop \<open>for i in range(n): L[i][i] = 0; initial_adj[i][i] = 0\<close> on the freshly
  allocated \<open>n\<close> by \<open>n\<close> matrices.
\<close>

definition zero_diag :: "nat \<Rightarrow> weight list list \<Rightarrow> weight list list" where
  "zero_diag n m = fold (\<lambda>i a. a[i := (a ! i)[i := Num 0]]) [0..<n] m"

text \<open>
  One pass of the edge loop body on the line \<open>lines[2 + i]\<close>. The result is the graph
  as the statements executed so far left it, and whether the body ran to its end.
\<close>

definition load_edge :: "graph \<Rightarrow> string \<Rightarrow> graph \<times> bool" where
  "load_edge g line =
     (case those (map py_int (py_split line)) of
        None \<Rightarrow> (g, False)
      | Some parts \<Rightarrow>
          (case py_index parts 0 of None \<Rightarrow> (g, False) | Some u \<Rightarrow>
          (case py_index parts 1 of None \<Rightarrow> (g, False) | Some v \<Rightarrow>
          (case py_index parts 2 of None \<Rightarrow> (g, False) | Some w \<Rightarrow>
          (case set2 (L g) u v (Num w) of None \<Rightarrow> (g, False) | Some L' \<Rightarrow>
          (case set2 (initial_adj g) u v (Num w) of
             None \<Rightarrow> (g\<lparr>L := L'\<rparr>, False)
           | Some A' \<Rightarrow>
              (let g2 = g\<lparr>L := L', initial_adj := A'\<rparr> in
               (case get2 (P g2) u v of None \<Rightarrow> (g2, False) | Some ps \<Rightarrow>
                  if u \<in> set ps then (g2, True)
                  else (case set2 (P g2) u v (ps @ [u]) of
                          None \<Rightarrow> (g2, False)
                        | Some P' \<Rightarrow> (g2\<lparr>P := P'\<rparr>, True))))))))))"

fun load_edges :: "graph \<Rightarrow> string list \<Rightarrow> nat list \<Rightarrow> graph \<times> bool" where
  "load_edges g lines [] = (g, True)"
| "load_edges g lines (i # is) =
     (if 2 + i < length lines then
        (case load_edge g (lines ! (2 + i)) of
           (g', True) \<Rightarrow> load_edges g' lines is
         | (g', False) \<Rightarrow> (g', False))
      else load_edges g lines is)"

text \<open>
  \<open>load_from_file\<close>: the second argument is what the file system holds under the name,
  \<open>None\<close> when there is no such file, otherwise the result of \<open>readlines()\<close>. The
  result is the object after the call and the returned boolean; every exception inside
  the \<open>try\<close> block ends the call with \<open>False\<close>, the fields staying as assigned so far.
\<close>

definition fresh_matrices :: "graph \<Rightarrow> graph" where
  "fresh_matrices g =
     (let n = nat (num_vertices g) in
      g\<lparr>L := zero_diag n (replicate n (replicate n PInf)),
        P := replicate n (replicate n []),
        initial_adj := zero_diag n (replicate n (replicate n PInf))\<rparr>)"

text \<open>\<open>[l.strip() for l in f.readlines() if l.strip()]\<close>\<close>

definition nonblank_lines :: "string list \<Rightarrow> string list" where
  "nonblank_lines raw = map py_strip (filter (\<lambda>l. py_strip l \<noteq> []) raw)"

definition load_from_file :: "graph \<Rightarrow> string list option \<Rightarrow> graph \<times> bool" where
  "load_from_file g file =
     (case file of
        None \<Rightarrow> (g, False)
      | Some raw \<Rightarrow>
          (let lines = nonblank_lines raw in
           if lines = [] then (g, False)
           else
             (case py_int (lines ! 0) of
                None \<Rightarrow> (g, False)
              | Some n \<Rightarrow>
                 (case py_index lines 1 of
                    None \<Rightarrow> (g\<lparr>num_vertices := n\<rparr>, False)
                  | Some l1 \<Rightarrow>
                     (case py_int l1 of
                        None \<Rightarrow> (g\<lparr>num_vertices := n\<rparr>, False)
                      | Some num_edges \<Rightarrow>
                          load_edges (fresh_matrices (g\<lparr>num_vertices := n\<rparr>)) lines
                            [0..<nat num_edges])))))"

subsection \<open>\<open>floyd_warshall\<close>\<close>

text \<open>\<open>_add_unique(target_list, source_list)\<close>: the target list after the call.\<close>

definition add_unique :: "int list \<Rightarrow> int list \<Rightarrow> int list" where
  "add_unique target_list source_list =
     fold (\<lambda>val t. if val \<in> set t then t else t @ [val]) source_list target_list"

text \<open>
  The body of the innermost loop for one \<open>(k, i, j)\<close>. In the branch of a strictly
  smaller distance the cell \<open>P[i][j]\<close> is first bound to a new empty list, and
  \<open>P[k][j]\<close> is read after that.
\<close>

definition relax :: "graph \<Rightarrow> nat \<Rightarrow> nat \<Rightarrow> nat \<Rightarrow> graph option" where
  "relax g k i j =
     (case get2 (L g) (int i) (int k) of None \<Rightarrow> None | Some lik \<Rightarrow>
      if lik = PInf then Some g
      else
       (case get2 (L g) (int k) (int j) of None \<Rightarrow> None | Some lkj \<Rightarrow>
        if lkj = PInf then Some g
        else
         (let new_dist = wadd lik lkj in
          (case get2 (L g) (int i) (int j) of None \<Rightarrow> None | Some lij \<Rightarrow>
           if wlt new_dist lij then
             (case set2 (L g) (int i) (int j) new_dist of None \<Rightarrow> None | Some L' \<Rightarrow>
             (case set2 (P g) (int i) (int j) [] of None \<Rightarrow> None | Some P1 \<Rightarrow>
             (case get2 P1 (int i) (int j) of None \<Rightarrow> None | Some tgt \<Rightarrow>
             (case get2 P1 (int k) (int j) of None \<Rightarrow> None | Some src \<Rightarrow>
             (case set2 P1 (int i) (int j) (add_unique tgt src) of None \<Rightarrow> None | Some P2 \<Rightarrow>
                Some (g\<lparr>L := L', P := P2\<rparr>))))))
           else if new_dist = lij then
             (case get2 (P g) (int i) (int j) of None \<Rightarrow> None | Some tgt \<Rightarrow>
             (case get2 (P g) (int k) (int j) of None \<Rightarrow> None | Some src \<Rightarrow>
             (case set2 (P g) (int i) (int j) (add_unique tgt src) of None \<Rightarrow> None | Some P2 \<Rightarrow>
                Some (g\<lparr>P := P2\<rparr>))))
           else Some g))))"

text \<open>
  A \<open>for\<close> loop over a list whose body may raise. The trace that \<open>floyd_warshall\<close>
  prints after each step is output only and is left out.
\<close>

fun for_each :: "('a \<Rightarrow> 's \<Rightarrow> 's option) \<Rightarrow> 'a list \<Rightarrow> 's \<Rightarrow> 's option" where
  "for_each body [] s = Some s"
| "for_each body (x # xs) s =
     (case body x s of None \<Rightarrow> None | Some s' \<Rightarrow> for_each body xs s')"

definition floyd_warshall :: "graph \<Rightarrow> graph option" where
  "floyd_warshall g =
     (let n = nat (num_vertices g) in
      for_each (\<lambda>k. for_each (\<lambda>i. for_each (\<lambda>j g'. relax g' k i j) [0..<n]) [0..<n]) [0..<n] g)"

subsection \<open>\<open>has_negative_cycle\<close> and \<open>get_negative_cycle_path\<close>\<close>

text \<open>The first \<open>i\<close> of the list with \<open>L[i][i] < 0\<close>, if any.\<close>

fun first_negative :: "graph \<Rightarrow> nat list \<Rightarrow> nat option option" where
  "first_negative g [] = Some None"
| "first_negative g (i # is) =
     (case get2 (L g) (int i) (int i) of None \<Rightarrow> None
      | Some w \<Rightarrow> if wlt w (Num 0) then Some (Some i) else first_negative g is)"

definition has_negative_cycle :: "graph \<Rightarrow> bool option" where
  "has_negative_cycle g =
     map_option (\<lambda>r. r \<noteq> None) (first_negative g [0..<nat (num_vertices g)])"

text \<open>
  The \<open>while\<close> loop of \<open>get_negative_cycle_path\<close>; the last argument is
  \<open>max_steps - steps\<close>.
\<close>

fun walk_back :: "graph \<Rightarrow> int \<Rightarrow> int \<Rightarrow> int list \<Rightarrow> nat \<Rightarrow> int list option" where
  "walk_back g start_node cur path 0 = Some path"
| "walk_back g start_node cur path (Suc r) =
     (if cur = start_node then Some path
      else (case get2 (P g) start_node cur of
              None \<Rightarrow> None
            | Some [] \<Rightarrow> Some path
            | Some (p # ps) \<Rightarrow> walk_back g start_node p (path @ [p]) r))"

text \<open>\<open>path.reverse()\<close>, then the closing \<open>append\<close>.\<close>

definition close_path :: "int list \<Rightarrow> int list" where
  "close_path path =
     (let r = rev path in if r \<noteq> [] \<and> hd r \<noteq> last r then r @ [hd r] else r)"

definition get_negative_cycle_path :: "graph \<Rightarrow> int list option" where
  "get_negative_cycle_path g =
     (case first_negative g [0..<nat (num_vertices g)] of
        None \<Rightarrow> None
      | Some None \<Rightarrow> Some []
      | Some (Some i) \<Rightarrow>
         (let start_node = int i in
          (case get2 (initial_adj g) start_node start_node of None \<Rightarrow> None | Some a \<Rightarrow>
           if wlt a (Num 0) then Some [start_node, start_node]
           else
            (case get2 (P g) start_node start_node of
               None \<Rightarrow> None
             | Some [] \<Rightarrow> Some []
             | Some (cur # ps) \<Rightarrow>
                 map_option close_path
                   (walk_back g start_node cur [cur] (nat (num_vertices g * 2)))))))"

subsection \<open>\<open>get_all_shortest_paths\<close>\<close>

text \<open>
  The first argument is the number of nested calls the interpreter still allows;
  running out of it is \<open>RecursionError\<close>.
\<close>

fun get_all_shortest_paths :: "nat \<Rightarrow> graph \<Rightarrow> int \<Rightarrow> int \<Rightarrow> int list list option" where
  "get_all_shortest_paths 0 g start endv = None"
| "get_all_shortest_paths (Suc d) g start endv =
     (case get2 (L g) start endv of None \<Rightarrow> None | Some w \<Rightarrow>
      if w = PInf then Some []
      else if start = endv then Some [[start]]
      else
       (case get2 (P g) start endv of None \<Rightarrow> None | Some preds \<Rightarrow>
          map_option concat
            (those (map (\<lambda>pred. if pred = endv then Some []
                                 else map_option (map (\<lambda>p. p @ [endv]))
                                        (get_all_shortest_paths d g start pred))
                        preds))))"

section \<open>Example files\<close>

text \<open>Two vertices on a cycle of weight \<open>-1\<close>.\<close>

definition neg2_file :: "string list option" where
  "neg2_file = Some [''2'', ''2'', ''0 1 1'', ''1 0 -2'']"

definition neg2_loaded :: graph where
  "neg2_loaded =
     \<lparr>num_vertices = 2,
      L = [[Num 0, Num 1], [Num (- 2), Num 0]],
      P = [[[], [0]], [[1], []]],
      initial_adj = [[Num 0, Num 1], [Num (- 2), Num 0]]\<rparr>"

definition neg2_closed :: graph where
  "neg2_closed =
     \<lparr>num_vertices = 2,
      L = [[Num (- 1), Num 0], [Num (- 3), Num (- 2)]],
      P = [[[1], [0]], [[], []]],
      initial_adj = [[Num 0, Num 1], [Num (- 2), Num 0]]\<rparr>"

text \<open>The tie of distances \<open>0 \<rightarrow> 1 \<rightarrow> 2\<close> and \<open>0 \<rightarrow> 2\<close>.\<close>

definition tie_file :: "string list option" where
  "tie_file = Some [''3'', ''3'', ''0 1 1'', ''1 2 2'', ''0 2 3'']"

definition tie_loaded :: graph where
  "tie_loaded =
     \<lparr>num_vertices = 3,
      L = [[Num 0, Num 1, Num 3], [PInf, Num 0, Num 2], [PInf, PInf, Num 0]],
      P = [[[], [0], [0]], [[], [], [1]], [[], [], []]],
      initial_adj = [[Num 0, Num 1, Num 3], [PInf, Num 0, Num 2], [PInf, PInf, Num 0]]\<rparr>"

definition tie_closed :: graph where
  "tie_closed =
     \<lparr>num_vertices = 3,
      L = [[Num 0, Num 1, Num 3], [PInf, Num 0, Num 2], [PInf, PInf, Num 0]],
      P = [[[], [0], [0, 1]], [[], [], [1]], [[], [], []]],
      initial_adj = [[Num 0, Num 1, Num 3], [PInf, Num 0, Num 2], [PInf, PInf, Num 0]]\<rparr>"

text \<open>One vertex with a loop of weight \<open>-1\<close>.\<close>

definition loop1_file :: "string list option" where
  "loop1_file = Some [''1'', ''1'', ''0 0 -1'']"

definition loop1_loaded :: graph where
  "loop1_loaded =
     \<lparr>num_vertices = 1, L = [[Num (- 1)]], P = [[[0]]], initial_adj = [[Num (- 1)]]\<rparr>"

text \<open>A cycle \<open>1 \<rightarrow> 2 \<rightarrow> 1\<close> of weight \<open>-1\<close> that vertex \<open>0\<close> reaches and is reached from.\<close>

definition spin_file :: "string list option" where
  "spin_file = Some [''3'', ''4'', ''0 2 -1'', ''1 0 2'', ''1 2 1'', ''2 1 -2'']"

definition spin_loaded :: graph where
  "spin_loaded =
     \<lparr>num_vertices = 3,
      L = [[Num 0, PInf, Num (- 1)], [Num 2, Num 0, Num 1], [PInf, Num (- 2), Num 0]],
      P = [[[], [], [0]], [[1], [], [1]], [[], [2], []]],
      initial_adj = [[Num 0, PInf, Num (- 1)], [Num 2, Num 0, Num 1], [PInf, Num (- 2), Num 0]]\<rparr>"

definition spin_closed :: graph where
  "spin_closed =
     \<lparr>num_vertices = 3,
      L = [[Num (- 1), Num (- 3), Num (- 2)], [Num 1, Num (- 1), Num 0],
           [Num (- 1), Num (- 3), Num (- 2)]],
      P = [[[1], [2], [1, 0]], [[1], [2], [1, 0]], [[], [], []]],
      initial_adj = [[Num 0, PInf, Num (- 1)], [Num 2, Num 0, Num 1], [PInf, Num (- 2), Num 0]]\<rparr>"

text \<open>Four vertices, all six edges of weight \<open>-1\<close>.\<close>

definition dead_file :: "string list option" where
  "dead_file = Some [''4'', ''6'', ''0 3 -1'', ''1 2 -1'', ''2 1 -1'', ''2 3 -1'',
                      ''3 0 -1'', ''3 2 -1'']"

definition dead_loaded :: graph where
  "dead_loaded =
     \<lparr>num_vertices = 4,
      L = [[Num 0, PInf, PInf, Num (- 1)], [PInf, Num 0, Num (- 1), PInf],
           [PInf, Num (- 1), Num 0, Num (- 1)], [Num (- 1), PInf, Num (- 1), Num 0]],
      P = [[[], [], [], [0]], [[], [], [1], []], [[], [2], [], [2]], [[3], [], [3], []]],
      initial_adj = [[Num 0, PInf, PInf, Num (- 1)], [PInf, Num 0, Num (- 1), PInf],
           [PInf, Num (- 1), Num 0, Num (- 1)], [Num (- 1), PInf, Num (- 1), Num 0]]\<rparr>"

definition dead_closed :: graph where
  "dead_closed =
     \<lparr>num_vertices = 4,
      L = [[Num (- 2), Num (- 5), Num (- 6), Num (- 11)],
           [Num (- 5), Num (- 8), Num (- 9), Num (- 14)],
           [Num (- 6), Num (- 9), Num (- 10), Num (- 15)],
           [Num (- 11), Num (- 14), Num (- 15), Num (- 20)]],
      P = [[[3], [], [], []], [[3], [], [], []], [[3], [], [], []], [[], [], [], []]],
      initial_adj = [[Num 0, PInf, PInf, Num (- 1)], [PInf, Num 0, Num (- 1), PInf],
           [PInf, Num (- 1), Num 0, Num (- 1)], [Num (- 1), PInf, Num (- 1), Num 0]]\<rparr>"








text \<open>The graph of \<open>neg2_file\<close> after a second run of \<open>floyd_warshall\<close>.\<close>

definition neg2_twice :: graph where
  "neg2_twice =
     \<lparr>num_vertices = 2,
      L = [[Num (- 7), Num (- 9)], [Num (- 12), Num (- 14)]],
      P = [[[], []], [[], []]],
      initial_adj = [[Num 0, Num 1], [Num (- 2), Num 0]]\<rparr>"

section \<open>Graphs of size \<open>n\<close> and relaxation steps on them\<close>

text \<open>A matrix of \<open>n\<close> rows of length \<open>n\<close>.\<close>

definition square :: "nat \<Rightarrow> 'a list list \<Rightarrow> bool" where
  "square n m \<longleftrightarrow> length m = n \<and> (\<forall>row \<in> set m. length row = n)"

text \<open>The three matrices have the size that \<open>num_vertices\<close> says, here \<open>n\<close>.\<close>

definition sized :: "nat \<Rightarrow> graph \<Rightarrow> bool" where
  "sized n g \<longleftrightarrow>
     nat (num_vertices g) = n \<and> square n (L g) \<and> square n (P g) \<and> square n (initial_adj g)"

definition put :: "'a list list \<Rightarrow> nat \<Rightarrow> nat \<Rightarrow> 'a \<Rightarrow> 'a list list" where
  "put m i j v = m[i := (m ! i)[j := v]]"

text \<open>
  What \<open>relax g k i j\<close> returns on a graph of size \<open>n\<close> for \<open>k, i, j < n\<close>
  (lemma \<open>relax_sized\<close>), where no subscription can fail.
\<close>

definition rstep :: "graph \<Rightarrow> nat \<Rightarrow> nat \<Rightarrow> nat \<Rightarrow> graph" where
  "rstep g k i j =
     (let lik = L g ! i ! k; lkj = L g ! k ! j; new_dist = wadd lik lkj in
      if lik = PInf \<or> lkj = PInf then g
      else if wlt new_dist (L g ! i ! j) then
        g\<lparr>L := put (L g) i j new_dist,
          P := put (P g) i j (if i = k then [] else add_unique [] (P g ! k ! j))\<rparr>
      else if new_dist = L g ! i ! j then
        g\<lparr>P := put (P g) i j (add_unique (P g ! i ! j) (P g ! k ! j))\<rparr>
      else g)"

text \<open>The steps of \<open>floyd_warshall\<close> in the order of the three nested loops.\<close>

definition phase_steps :: "nat \<Rightarrow> nat \<Rightarrow> (nat \<times> nat \<times> nat) list" where
  "phase_steps n k = map (\<lambda>(i, j). (k, i, j)) (List.product [0..<n] [0..<n])"

definition triples :: "nat \<Rightarrow> (nat \<times> nat \<times> nat) list" where
  "triples n = concat (map (phase_steps n) [0..<n])"

definition run :: "(nat \<times> nat \<times> nat) list \<Rightarrow> graph \<Rightarrow> graph" where
  "run ts g = fold (\<lambda>(k, i, j) g'. rstep g' k i j) ts g"

definition in_range :: "nat \<Rightarrow> (nat \<times> nat \<times> nat) list \<Rightarrow> bool" where
  "in_range n ts \<longleftrightarrow> (\<forall>t \<in> set ts. fst t < n \<and> fst (snd t) < n \<and> snd (snd t) < n)"

text \<open>The loop body run for a list of \<open>(k, i, j)\<close>, as \<open>floyd_warshall\<close> does for \<open>triples n\<close>.\<close>

definition relax_steps :: "(nat \<times> nat \<times> nat) list \<Rightarrow> graph \<Rightarrow> graph option" where
  "relax_steps ts g = for_each (\<lambda>(k, i, j) g'. relax g' k i j) ts g"

text \<open>A graph as \<open>load_from_file\<close> leaves it on success: of size \<open>n\<close>, with \<open>L\<close> a copy of \<open>initial_adj\<close>.\<close>

definition loaded :: "nat \<Rightarrow> graph \<Rightarrow> bool" where
  "loaded n g \<longleftrightarrow> sized n g \<and> L g = initial_adj g"


section \<open>Walks, cycles and what the closure maintains\<close>

text \<open>\<open>a \<le> b\<close> on matrix entries.\<close>

definition wle :: "weight \<Rightarrow> weight \<Rightarrow> bool" where
  "wle a b \<longleftrightarrow> \<not> wlt b a"

text \<open>
  The total weight of the walk from \<open>i\<close> to \<open>j\<close> through the vertices \<open>vs\<close> in the matrix
  \<open>A\<close>; it is infinite when an edge of the walk is missing.
\<close>

fun walk_weight :: "weight list list \<Rightarrow> nat \<Rightarrow> nat list \<Rightarrow> nat \<Rightarrow> weight" where
  "walk_weight A i [] j = A ! i ! j"
| "walk_weight A i (v # vs) j = wadd (A ! i ! v) (walk_weight A v vs j)"

text \<open>Some diagonal entry of \<open>L\<close> is negative.\<close>

definition neg_diag :: "nat \<Rightarrow> graph \<Rightarrow> bool" where
  "neg_diag n g \<longleftrightarrow> (\<exists>i<n. wlt (L g ! i ! i) (Num 0))"





text \<open>
  Every entry of \<open>L\<close> is at most the weight of every walk between its two vertices whose
  inner vertices are below \<open>k\<close>.
\<close>

definition below_walks :: "nat \<Rightarrow> nat \<Rightarrow> weight list list \<Rightarrow> graph \<Rightarrow> bool" where
  "below_walks n k A g \<longleftrightarrow>
     (\<forall>i<n. \<forall>j<n. \<forall>vs. (\<forall>v \<in> set vs. v < k) \<longrightarrow> wle (L g ! i ! j) (walk_weight A i vs j))"

text \<open>Every finite entry of \<open>L\<close> is the weight of a walk between its two vertices.\<close>

definition walk_entries :: "nat \<Rightarrow> weight list list \<Rightarrow> graph \<Rightarrow> bool" where
  "walk_entries n A g \<longleftrightarrow>
     (\<forall>i<n. \<forall>j<n. L g ! i ! j \<noteq> PInf \<longrightarrow>
        (\<exists>vs. (\<forall>v \<in> set vs. v < n) \<and> walk_weight A i vs j = L g ! i ! j))"




text \<open>
  Every predecessor \<open>p\<close> in \<open>P[i][j]\<close> was recorded by the loaded graph \<open>g0\<close> for the
  last edge of a walk from \<open>i\<close> to \<open>j\<close> whose weight is \<open>L[i][j]\<close>.
\<close>

definition pred_walks :: "nat \<Rightarrow> graph \<Rightarrow> graph \<Rightarrow> bool" where
  "pred_walks n g0 g \<longleftrightarrow>
     (\<forall>i<n. \<forall>j<n. \<forall>p \<in> set (P g ! i ! j).
        \<exists>ws. (\<forall>v \<in> set ws. v < n) \<and> p \<in> set (P g0 ! last (i # ws) ! j)
           \<and> walk_weight (initial_adj g0) i ws j = L g ! i ! j)"





text \<open>
  \<open>P[i][j]\<close> holds every predecessor that the loaded graph \<open>g0\<close> recorded for the last
  edge of a walk from \<open>i\<close> to \<open>j\<close> of weight \<open>L[i][j]\<close> with inner vertices below \<open>k\<close>.
\<close>

definition pred_complete :: "nat \<Rightarrow> nat \<Rightarrow> graph \<Rightarrow> graph \<Rightarrow> bool" where
  "pred_complete n k g0 g \<longleftrightarrow>
     (\<forall>i<n. \<forall>j<n. \<forall>ws p.
        (\<forall>v \<in> set ws. v < k) \<and> p \<in> set (P g0 ! last (i # ws) ! j)
        \<and> walk_weight (initial_adj g0) i ws j = L g ! i ! j \<and> L g ! i ! j \<noteq> PInf
        \<longrightarrow> p \<in> set (P g ! i ! j))"

text \<open>No relaxation step can change the graph.\<close>

definition stable :: "nat \<Rightarrow> graph \<Rightarrow> bool" where
  "stable n g \<longleftrightarrow>
     (\<forall>k<n. \<forall>i<n. \<forall>j<n. L g ! i ! k \<noteq> PInf \<and> L g ! k ! j \<noteq> PInf \<longrightarrow>
        \<not> wlt (wadd (L g ! i ! k) (L g ! k ! j)) (L g ! i ! j)
        \<and> (wadd (L g ! i ! k) (L g ! k ! j) = L g ! i ! j
             \<longrightarrow> set (P g ! k ! j) \<subseteq> set (P g ! i ! j)))"

section \<open>Subscription on square matrices\<close>

lemma py_pos_nat [simp]: "i < n \<Longrightarrow> py_pos n (int i) = Some i"
  by (simp add: py_pos_def)

lemma square_row: "square n m \<Longrightarrow> i < n \<Longrightarrow> length (m ! i) = n"
  by (metis nth_mem square_def)

lemma get2_square:
  assumes "square n m" "i < n" "j < n"
  shows "get2 m (int i) (int j) = Some (m ! i ! j)"
proof -
  have "length m = n" "length (m ! i) = n"
    using assms square_row by (auto simp: square_def)
  then show ?thesis
    using assms by (simp add: get2_def py_index_def)
qed

lemma set2_square:
  assumes "square n m" "i < n" "j < n"
  shows "set2 m (int i) (int j) v = Some (put m i j v)"
proof -
  have "length m = n" "length (m ! i) = n"
    using assms square_row by (auto simp: square_def)
  then show ?thesis
    using assms by (simp add: set2_def py_index_def py_setitem_def put_def)
qed

lemma square_put:
  assumes "square n m"
  shows "square n (put m i j v)"
proof -
  have len: "length m = n" and rows: "\<And>row. row \<in> set m \<Longrightarrow> length row = n"
    using assms by (auto simp: square_def)
  have "length row = n" if "row \<in> set (m[i := (m ! i)[j := v]])" for row
  proof -
    from that have "row = (m ! i)[j := v] \<and> i < length m \<or> row \<in> set m"
      by (metis in_set_conv_nth length_list_update nth_list_update_eq nth_list_update_neq nth_mem)
    then show ?thesis
      using rows by auto
  qed
  then show ?thesis
    using len by (simp add: square_def put_def)
qed

lemma cell_put:
  "square n m \<Longrightarrow> i < n \<Longrightarrow> j < n \<Longrightarrow>
   put m i j v ! a ! b = (if a = i \<and> b = j then v else m ! a ! b)"
  by (auto simp: square_def put_def nth_list_update)

section \<open>Arithmetic and order of matrix entries\<close>

lemma wle_simps [simp]:
  "wle (Num a) (Num b) \<longleftrightarrow> a \<le> b"
  "wle x PInf"
  "wle PInf (Num b) \<longleftrightarrow> False"
  by (cases x; auto simp: wle_def)+

lemma wle_refl [simp]: "wle a a"
  by (cases a) auto

lemma wle_trans: "wle a b \<Longrightarrow> wle b c \<Longrightarrow> wle a c"
  by (cases a; cases b; cases c) auto

lemma wle_antisym: "wle a b \<Longrightarrow> wle b a \<Longrightarrow> a = b"
  by (cases a; cases b) auto

lemma wlt_wle: "wlt a b \<Longrightarrow> wle a b"
  by (cases a; cases b) auto

lemma wle_cases: "wle a b \<longleftrightarrow> wlt a b \<or> a = b"
  by (cases a; cases b) auto

lemma wadd_PInf [simp]: "wadd PInf x = PInf" "wadd x PInf = PInf"
  by (cases x; simp)+

lemma wadd_assoc: "wadd (wadd a b) c = wadd a (wadd b c)"
  by (cases a; cases b; cases c) auto

lemma wadd_mono: "wle a b \<Longrightarrow> wle c d \<Longrightarrow> wle (wadd a c) (wadd b d)"
  by (cases a; cases b; cases c; cases d) auto

lemma wadd_finite: "wadd a b \<noteq> PInf \<longleftrightarrow> a \<noteq> PInf \<and> b \<noteq> PInf"
  by (cases a; cases b) auto

lemma walk_weight_append:
  "walk_weight A i (xs @ k # ys) j = wadd (walk_weight A i xs k) (walk_weight A k ys j)"
  by (induction xs arbitrary: i) (auto simp: wadd_assoc)

section \<open>A relaxation step on a graph of size \<open>n\<close>\<close>

lemma relax_sized:
  assumes "sized n g" "k < n" "i < n" "j < n"
  shows "relax g k i j = Some (rstep g k i j)"
proof -
  from assms have sq: "square n (L g)" "square n (P g)"
    by (auto simp: sized_def)
  have sq1: "square n (put (P g) i j [])"
    using sq by (simp add: square_put)
  have c1: "put (P g) i j [] ! i ! j = []" "put (P g) i j [] ! k ! j = (if i = k then [] else P g ! k ! j)"
    using sq assms by (auto simp: cell_put)
  have pp: "put (put (P g) i j []) i j v = put (P g) i j v" for v
    using sq assms by (simp add: put_def square_def)
  have au: "add_unique [] [] = []"
    by (simp add: add_unique_def)
  show ?thesis
    using assms sq sq1 c1
    by (auto simp: relax_def rstep_def Let_def get2_square set2_square pp au)
qed

lemma sized_rstep:
  "sized n g \<Longrightarrow> sized n (rstep g k i j)"
  by (auto simp: sized_def rstep_def Let_def square_put)

lemma adj_rstep [simp]: "initial_adj (rstep g k i j) = initial_adj g"
  by (auto simp: rstep_def Let_def)

lemma L_rstep:
  assumes "sized n g" "i < n" "j < n"
  shows "L (rstep g k i j) ! a ! b =
     (if a = i \<and> b = j \<and> L g ! i ! k \<noteq> PInf \<and> L g ! k ! j \<noteq> PInf
         \<and> wlt (wadd (L g ! i ! k) (L g ! k ! j)) (L g ! i ! j)
      then wadd (L g ! i ! k) (L g ! k ! j) else L g ! a ! b)"
proof -
  from assms have sq: "square n (L g)" by (simp add: sized_def)
  show ?thesis
    using assms by (auto simp: rstep_def Let_def cell_put [OF sq])
qed

lemma P_rstep:
  assumes "sized n g" "i < n" "j < n"
  shows "P (rstep g k i j) ! a ! b =
     (if a = i \<and> b = j \<and> L g ! i ! k \<noteq> PInf \<and> L g ! k ! j \<noteq> PInf then
        (if wlt (wadd (L g ! i ! k) (L g ! k ! j)) (L g ! i ! j) then
           (if i = k then [] else add_unique [] (P g ! k ! j))
         else if wadd (L g ! i ! k) (L g ! k ! j) = L g ! i ! j then
           add_unique (P g ! i ! j) (P g ! k ! j)
         else P g ! a ! b)
      else P g ! a ! b)"
proof -
  from assms have sq: "square n (P g)" by (simp add: sized_def)
  show ?thesis
    using assms by (auto simp: rstep_def Let_def cell_put [OF sq])
qed

section \<open>Runs of steps\<close>

lemma run_Nil [simp]: "run [] g = g"
  by (simp add: run_def)

lemma run_Cons [simp]: "run ((k, i, j) # ts) g = run ts (rstep g k i j)"
  by (simp add: run_def)

lemma run_append: "run (xs @ ys) g = run ys (run xs g)"
  by (simp add: run_def)

lemma in_range_simps [simp]:
  "in_range n []"
  "in_range n ((k, i, j) # ts) \<longleftrightarrow> k < n \<and> i < n \<and> j < n \<and> in_range n ts"
  "in_range n (xs @ ys) \<longleftrightarrow> in_range n xs \<and> in_range n ys"
  by (auto simp: in_range_def)

lemma sized_run: "sized n g \<Longrightarrow> sized n (run ts g)"
  by (induction ts arbitrary: g) (auto simp: sized_rstep)

lemma adj_run [simp]: "initial_adj (run ts g) = initial_adj g"
  by (induction ts arbitrary: g) auto

lemma for_each_fold:
  assumes "\<And>x s. x \<in> set xs \<Longrightarrow> I s \<Longrightarrow> body x s = Some (f x s) \<and> I (f x s)" and "I s"
  shows "for_each body xs s = Some (fold f xs s) \<and> I (fold f xs s)"
  using assms by (induction xs arbitrary: s) auto

lemma in_range_phase_steps: "k < n \<Longrightarrow> in_range n (phase_steps n k)"
  by (auto simp: in_range_def phase_steps_def)

lemma in_range_triples: "in_range n (triples n)"
  by (auto simp: in_range_def triples_def phase_steps_def)

lemma fold_rows:
  "fold (\<lambda>i. fold (\<lambda>j g'. rstep g' k i j) js) is g
   = run (map (\<lambda>(i, j). (k, i, j)) (List.product is js)) g"
proof (induction "is" arbitrary: g)
  case Nil
  then show ?case by simp
next
  case (Cons i "is")
  have "fold (\<lambda>j g'. rstep g' k i j) js g = run (map (\<lambda>j. (k, i, j)) js) g" for g
    by (induction js arbitrary: g) auto
  then show ?case
    using Cons by (simp add: run_append comp_def)
qed

lemma fold_phases:
  "fold (\<lambda>k. fold (\<lambda>i. fold (\<lambda>j g'. rstep g' k i j) [0..<n]) [0..<n]) ks g
   = run (concat (map (phase_steps n) ks)) g"
  by (induction ks arbitrary: g) (auto simp: run_append fold_rows phase_steps_def)

lemma floyd_warshall_run:
  assumes "sized n g"
  shows "floyd_warshall g = Some (run (triples n) g)"
proof -
  have n: "nat (num_vertices g) = n"
    using assms by (simp add: sized_def)
  have inner: "for_each (\<lambda>j g'. relax g' k i j) [0..<n] s
        = Some (fold (\<lambda>j g'. rstep g' k i j) [0..<n] s)
      \<and> sized n (fold (\<lambda>j g'. rstep g' k i j) [0..<n] s)"
    if "k < n" "i < n" "sized n s" for k i s
    by (rule for_each_fold [where I = "sized n"])
       (use that in \<open>auto simp: relax_sized sized_rstep\<close>)
  have middle: "for_each (\<lambda>i. for_each (\<lambda>j g'. relax g' k i j) [0..<n]) [0..<n] s
        = Some (fold (\<lambda>i. fold (\<lambda>j g'. rstep g' k i j) [0..<n]) [0..<n] s)
      \<and> sized n (fold (\<lambda>i. fold (\<lambda>j g'. rstep g' k i j) [0..<n]) [0..<n] s)"
    if "k < n" "sized n s" for k s
    by (rule for_each_fold [where I = "sized n"])
       (use that inner in auto)
  have outer: "for_each (\<lambda>k. for_each (\<lambda>i. for_each (\<lambda>j g'. relax g' k i j) [0..<n]) [0..<n]) [0..<n] g
        = Some (fold (\<lambda>k. fold (\<lambda>i. fold (\<lambda>j g'. rstep g' k i j) [0..<n]) [0..<n]) [0..<n] g)
      \<and> sized n (fold (\<lambda>k. fold (\<lambda>i. fold (\<lambda>j g'. rstep g' k i j) [0..<n]) [0..<n]) [0..<n] g)"
    by (rule for_each_fold [where I = "sized n"])
       (use assms middle in auto)
  then show ?thesis
    by (simp add: floyd_warshall_def n Let_def fold_phases triples_def)
qed

section \<open>Distances never grow\<close>

lemma wlt_irrefl: "\<not> wlt a a"
  by (cases a) auto

lemma wle_L_rstep:
  "sized n g \<Longrightarrow> i < n \<Longrightarrow> j < n \<Longrightarrow> wle (L (rstep g k i j) ! a ! b) (L g ! a ! b)"
  by (simp add: L_rstep wlt_wle)

lemma wle_L_run:
  "sized n g \<Longrightarrow> in_range n ts \<Longrightarrow> wle (L (run ts g) ! a ! b) (L g ! a ! b)"
proof (induction ts arbitrary: g)
  case Nil
  then show ?case by simp
next
  case (Cons t ts)
  obtain k i j where t: "t = (k, i, j)"
    by (cases t) auto
  with Cons.prems have r: "k < n" "i < n" "j < n" "in_range n ts"
    by auto
  have "wle (L (run ts (rstep g k i j)) ! a ! b) (L (rstep g k i j) ! a ! b)"
    using Cons.IH r Cons.prems(1) by (simp add: sized_rstep)
  moreover have "wle (L (rstep g k i j) ! a ! b) (L g ! a ! b)"
    using Cons.prems(1) r by (simp add: wle_L_rstep)
  ultimately have "wle (L (run ts (rstep g k i j)) ! a ! b) (L g ! a ! b)"
    by (rule wle_trans)
  then show ?case
    using t by simp
qed

lemma L_rstep_le_sum:
  assumes "sized n g" "i < n" "j < n"
  shows "wle (L (rstep g k i j) ! i ! j) (wadd (L g ! i ! k) (L g ! k ! j))"
proof (cases "L g ! i ! k = PInf \<or> L g ! k ! j = PInf")
  case True
  then show ?thesis by auto
next
  case False
  then show ?thesis
    using assms by (auto simp: L_rstep wle_def wlt_irrefl)
qed

lemma phase_le_sum:
  assumes g: "sized n g" and r: "k < n" "i < n" "j < n"
  shows "wle (L (run (phase_steps n k) g) ! i ! j) (wadd (L g ! i ! k) (L g ! k ! j))"
proof -
  have "(k, i, j) \<in> set (phase_steps n k)"
    using r by (auto simp: phase_steps_def)
  then obtain xs ys where split: "phase_steps n k = xs @ (k, i, j) # ys"
    by (meson split_list)
  have "in_range n (xs @ (k, i, j) # ys)"
    using in_range_phase_steps [OF r(1)] split by simp
  then have xs: "in_range n xs" and ys: "in_range n ys"
    by auto
  define g1 where "g1 = run xs g"
  define g2 where "g2 = rstep g1 k i j"
  have s1: "sized n g1" and s2: "sized n g2"
    using g by (auto simp: g1_def g2_def sized_run sized_rstep)
  have a: "wle (L (run ys g2) ! i ! j) (L g2 ! i ! j)"
    using s2 ys by (rule wle_L_run)
  have b: "wle (L g2 ! i ! j) (wadd (L g1 ! i ! k) (L g1 ! k ! j))"
    unfolding g2_def using s1 r by (simp add: L_rstep_le_sum)
  have c: "wle (wadd (L g1 ! i ! k) (L g1 ! k ! j)) (wadd (L g ! i ! k) (L g ! k ! j))"
    unfolding g1_def using g xs by (intro wadd_mono wle_L_run)
  have d: "run (phase_steps n k) g = run ys g2"
    by (simp add: split run_append g1_def g2_def)
  show ?thesis
    unfolding d by (rule wle_trans [OF a wle_trans [OF b c]])
qed

section \<open>Finite distances are weights of walks\<close>

lemma walk_entries_rstep:
  assumes w: "walk_entries n A g" and g: "sized n g" and r: "k < n" "i < n" "j < n"
  shows "walk_entries n A (rstep g k i j)"
  unfolding walk_entries_def
proof (intro allI impI)
  fix a b
  assume ab: "a < n" "b < n" and fin: "L (rstep g k i j) ! a ! b \<noteq> PInf"
  let ?c = "a = i \<and> b = j \<and> L g ! i ! k \<noteq> PInf \<and> L g ! k ! j \<noteq> PInf
         \<and> wlt (wadd (L g ! i ! k) (L g ! k ! j)) (L g ! i ! j)"
  show "\<exists>vs. (\<forall>v \<in> set vs. v < n) \<and> walk_weight A a vs b = L (rstep g k i j) ! a ! b"
  proof (cases ?c)
    case True
    then obtain xs ys where
      xs: "\<forall>v \<in> set xs. v < n" "walk_weight A i xs k = L g ! i ! k" and
      ys: "\<forall>v \<in> set ys. v < n" "walk_weight A k ys j = L g ! k ! j"
      using w r unfolding walk_entries_def by metis
    have "walk_weight A a (xs @ k # ys) b = L (rstep g k i j) ! a ! b"
      using True xs ys g r by (simp add: walk_weight_append L_rstep)
    moreover have "\<forall>v \<in> set (xs @ k # ys). v < n"
      using xs ys r by auto
    ultimately show ?thesis by blast
  next
    case False
    have "L (rstep g k i j) ! a ! b = L g ! a ! b"
      by (simp only: L_rstep [OF g r(2,3)] False if_False)
    then show ?thesis
      using w ab fin unfolding walk_entries_def by metis
  qed
qed

lemma walk_entries_run:
  "walk_entries n A g \<Longrightarrow> sized n g \<Longrightarrow> in_range n ts \<Longrightarrow> walk_entries n A (run ts g)"
proof (induction ts arbitrary: g)
  case Nil
  then show ?case by simp
next
  case (Cons t ts)
  obtain k i j where t: "t = (k, i, j)"
    by (cases t) auto
  with Cons.prems have r: "k < n" "i < n" "j < n" "in_range n ts"
    by auto
  have "walk_entries n A (run ts (rstep g k i j))"
    using Cons.prems r by (intro Cons.IH walk_entries_rstep sized_rstep)
  then show ?case
    using t by simp
qed

lemma walk_entries_start: "L g = A \<Longrightarrow> walk_entries n A g"
  unfolding walk_entries_def
  by (metis empty_iff list.set(1) walk_weight.simps(1))

section \<open>Distances are below the weights of walks\<close>

lemma not_wlt_mono: "wle a b \<Longrightarrow> \<not> wlt a c \<Longrightarrow> \<not> wlt b c"
  by (cases a; cases b; cases c) auto

lemma wadd_nonneg_left: "\<not> wlt d (Num 0) \<Longrightarrow> wle x (wadd d x)"
  by (cases d; cases x) auto

lemma walk_through_pivot:
  assumes b: "below_walks n k A g" and d: "\<not> wlt (L g ! k ! k) (Num 0)" and k: "k < n"
  shows "i < n \<Longrightarrow> j < n \<Longrightarrow> \<forall>v \<in> set vs. v < Suc k \<Longrightarrow>
         wle (L g ! i ! j) (walk_weight A i vs j)
         \<or> wle (wadd (L g ! i ! k) (L g ! k ! j)) (walk_weight A i vs j)"
proof (induction vs arbitrary: i rule: length_induct)
  case (1 vs)
  show ?case
  proof (cases "k \<in> set vs")
    case False
    with "1.prems" have "\<forall>v \<in> set vs. v < k"
      by (metis less_SucE)
    then show ?thesis
      using b "1.prems" unfolding below_walks_def by blast
  next
    case True
    then obtain xs ys where split: "vs = xs @ k # ys" and first: "k \<notin> set xs"
      by (meson split_list_first)
    have "\<forall>v \<in> set xs. v < k"
      using "1.prems"(3) first split by (metis UnCI less_SucE set_append)
    then have left: "wle (L g ! i ! k) (walk_weight A i xs k)"
      using b "1.prems" k unfolding below_walks_def by blast
    have "length ys < length vs" and "\<forall>v \<in> set ys. v < Suc k"
      using split "1.prems"(3) by auto
    then have "wle (L g ! k ! j) (walk_weight A k ys j)
        \<or> wle (wadd (L g ! k ! k) (L g ! k ! j)) (walk_weight A k ys j)"
      using "1.IH" k "1.prems"(2) by blast
    moreover have "wle (L g ! k ! j) (wadd (L g ! k ! k) (L g ! k ! j))"
      using d by (rule wadd_nonneg_left)
    ultimately have right: "wle (L g ! k ! j) (walk_weight A k ys j)"
      by (auto intro: wle_trans)
    have "wle (wadd (L g ! i ! k) (L g ! k ! j)) (walk_weight A i vs j)"
      unfolding split walk_weight_append using left right by (rule wadd_mono)
    then show ?thesis ..
  qed
qed

lemma below_walks_phase:
  assumes b: "below_walks n k A g" and g: "sized n g" and k: "k < n"
    and d: "\<not> wlt (L g ! k ! k) (Num 0)"
  shows "below_walks n (Suc k) A (run (phase_steps n k) g)"
  unfolding below_walks_def
proof (intro allI impI)
  fix i j vs
  assume r: "i < n" "j < n" and vs: "\<forall>v \<in> set vs. v < Suc k"
  let ?g' = "run (phase_steps n k) g"
  have a: "wle (L ?g' ! i ! j) (L g ! i ! j)"
    using g in_range_phase_steps [OF k] by (rule wle_L_run)
  have c: "wle (L ?g' ! i ! j) (wadd (L g ! i ! k) (L g ! k ! j))"
    using g k r by (rule phase_le_sum)
  from walk_through_pivot [OF b d k r vs]
  show "wle (L ?g' ! i ! j) (walk_weight A i vs j)"
    using a c by (auto intro: wle_trans)
qed

lemma below_walks_start: "L g = A \<Longrightarrow> below_walks n 0 A g"
  by (simp add: below_walks_def)

lemma triples_split:
  "k \<le> n \<Longrightarrow> triples n = concat (map (phase_steps n) [0..<k]) @ concat (map (phase_steps n) [k..<n])"
  unfolding triples_def
  by (metis concat_append map_append le0 upt_add_eq_append le_add_diff_inverse)

lemma in_range_phases: "m \<le> n \<Longrightarrow> in_range n (concat (map (phase_steps n) [k..<m]))"
  by (auto simp: in_range_def phase_steps_def)

lemma below_walks_phases:
  assumes g: "sized n g" and s: "L g = A" and nd: "\<not> neg_diag n (run (triples n) g)"
  shows "k \<le> n \<Longrightarrow> below_walks n k A (run (concat (map (phase_steps n) [0..<k])) g)"
proof (induction k)
  case 0
  then show ?case
    using s by (simp add: below_walks_start)
next
  case (Suc k)
  let ?gk = "run (concat (map (phase_steps n) [0..<k])) g"
  have k: "k < n" using Suc.prems by simp
  have sk: "sized n ?gk"
    using g by (rule sized_run)
  have "run (triples n) g = run (concat (map (phase_steps n) [k..<n])) ?gk"
    using k by (simp add: triples_split [of k n] run_append)
  then have "wle (L (run (triples n) g) ! k ! k) (L ?gk ! k ! k)"
    using wle_L_run [OF sk in_range_phases [of n n k]] by simp
  moreover have "\<not> wlt (L (run (triples n) g) ! k ! k) (Num 0)"
    using nd k by (auto simp: neg_diag_def)
  ultimately have d: "\<not> wlt (L ?gk ! k ! k) (Num 0)"
    by (rule not_wlt_mono)
  have "below_walks n (Suc k) A (run (phase_steps n k) ?gk)"
    using Suc.IH k sk d by (intro below_walks_phase) auto
  then show ?case
    by (simp add: run_append)
qed

lemma below_walks_closed:
  assumes "sized n g" "L g = A" "\<not> neg_diag n (run (triples n) g)"
  shows "below_walks n n A (run (triples n) g)"
  using below_walks_phases [OF assms, of n] by (simp add: triples_def)

section \<open>Negative diagonal entries and negative cycles\<close>


lemma triangle_closed:
  assumes g: "sized n g" and s: "L g = A" and nd: "\<not> neg_diag n (run (triples n) g)"
    and r: "i < n" "j < n" "k < n"
    and fin: "L (run (triples n) g) ! i ! k \<noteq> PInf" "L (run (triples n) g) ! k ! j \<noteq> PInf"
  shows "wle (L (run (triples n) g) ! i ! j)
             (wadd (L (run (triples n) g) ! i ! k) (L (run (triples n) g) ! k ! j))"
proof -
  let ?g' = "run (triples n) g"
  have "walk_entries n A ?g'"
    using walk_entries_start [OF s] g in_range_triples by (rule walk_entries_run)
  then obtain xs ys where
    xs: "\<forall>v \<in> set xs. v < n" "walk_weight A i xs k = L ?g' ! i ! k" and
    ys: "\<forall>v \<in> set ys. v < n" "walk_weight A k ys j = L ?g' ! k ! j"
    using r fin unfolding walk_entries_def by metis
  have "\<forall>v \<in> set (xs @ k # ys). v < n"
    using xs ys r by auto
  then have "wle (L ?g' ! i ! j) (walk_weight A i (xs @ k # ys) j)"
    using below_walks_closed [OF g s nd] r unfolding below_walks_def by blast
  then show ?thesis
    using xs ys by (simp add: walk_weight_append)
qed

section \<open>What a successful \<open>load_from_file\<close> establishes\<close>

lemma py_pos_less: "py_pos n u = Some i \<Longrightarrow> i < n"
  by (auto simp: py_pos_def split: if_splits)


lemma set2_square_int:
  assumes "square n m"
  shows "set2 m u v x =
     (case py_pos n u of None \<Rightarrow> None
      | Some i \<Rightarrow> (case py_pos n v of None \<Rightarrow> None | Some j \<Rightarrow> Some (put m i j x)))"
proof (cases "py_pos n u")
  case None
  then show ?thesis
    using assms by (simp add: set2_def py_index_def square_def)
next
  case (Some i)
  then have "length (m ! i) = n" "length m = n"
    using assms py_pos_less square_row by (auto simp: square_def)
  then show ?thesis
    using Some by (simp add: set2_def py_index_def py_setitem_def put_def split: option.splits)
qed

lemma zero_diag_put: "zero_diag k m = fold (\<lambda>i a. put a i i (Num 0)) [0..<k] m"
  by (simp add: zero_diag_def put_def)

lemma square_fold_put: "square n m \<Longrightarrow> square n (fold (\<lambda>i a. put a i i x) xs m)"
  by (induction xs arbitrary: m) (auto simp: square_put)

lemma square_replicate: "square n (replicate n (replicate n x))"
  by (simp add: square_def)

lemma loaded_fresh:
  "loaded (nat (num_vertices g)) (fresh_matrices g)"
  by (simp add: loaded_def sized_def fresh_matrices_def Let_def zero_diag_put
      square_fold_put square_replicate)

lemma load_edge_True:
  assumes "load_edge g line = (g', True)"
  obtains u v w ps where
    "set2 (L g) u v (Num w) = Some (L g')"
    "set2 (initial_adj g) u v (Num w) = Some (initial_adj g')"
    "num_vertices g' = num_vertices g"
    "get2 (P g) u v = Some ps"
    "u \<in> set ps \<Longrightarrow> P g' = P g"
    "u \<notin> set ps \<Longrightarrow> set2 (P g) u v (ps @ [u]) = Some (P g')"
proof -
  note d = load_edge_def Let_def
  obtain parts where 1: "those (map py_int (py_split line)) = Some parts"
    using assms by (cases "those (map py_int (py_split line))") (auto simp: d)
  obtain u where 2: "py_index parts 0 = Some u"
    using assms 1 by (cases "py_index parts 0") (auto simp: d)
  obtain v where 3: "py_index parts 1 = Some v"
    using assms 1 2 by (cases "py_index parts 1") (auto simp: d)
  obtain w where 4: "py_index parts 2 = Some w"
    using assms 1 2 3 by (cases "py_index parts 2") (auto simp: d)
  obtain L' where 5: "set2 (L g) u v (Num w) = Some L'"
    using assms 1 2 3 4 by (cases "set2 (L g) u v (Num w)") (auto simp: d)
  obtain A' where 6: "set2 (initial_adj g) u v (Num w) = Some A'"
    using assms 1 2 3 4 5 by (cases "set2 (initial_adj g) u v (Num w)") (auto simp: d)
  obtain ps where 7: "get2 (P g) u v = Some ps"
    using assms 1 2 3 4 5 6 by (cases "get2 (P g) u v") (auto simp: d)
  show thesis
  proof (cases "u \<in> set ps")
    case True
    then have "g' = g\<lparr>L := L', initial_adj := A'\<rparr>"
      using assms 1 2 3 4 5 6 7 by (simp add: d)
    then show ?thesis
      using that [of u v w ps] 5 6 7 True by simp
  next
    case False
    then obtain P' where 8: "set2 (P g) u v (ps @ [u]) = Some P'"
      using assms 1 2 3 4 5 6 7 by (cases "set2 (P g) u v (ps @ [u])") (auto simp: d)
    then have "g' = g\<lparr>L := L', initial_adj := A', P := P'\<rparr>"
      using assms 1 2 3 4 5 6 7 False by (simp add: d)
    then show ?thesis
      using that [of u v w ps] 5 6 7 8 False by simp
  qed
qed

lemma load_edge_loaded:
  assumes "loaded n g" "load_edge g line = (g', True)"
  shows "loaded n g'"
proof (rule load_edge_True [OF assms(2)])
  fix u v w ps
  assume L': "set2 (L g) u v (Num w) = Some (L g')"
    and A': "set2 (initial_adj g) u v (Num w) = Some (initial_adj g')"
    and n': "num_vertices g' = num_vertices g"
    and P': "u \<in> set ps \<Longrightarrow> P g' = P g"
        "u \<notin> set ps \<Longrightarrow> set2 (P g) u v (ps @ [u]) = Some (P g')"
  from assms(1) have sq: "square n (L g)" "square n (P g)" "square n (initial_adj g)"
    and eq: "L g = initial_adj g" and nv: "nat (num_vertices g) = n"
    by (auto simp: loaded_def sized_def)
  from L' obtain i j where ij: "py_pos n u = Some i" "py_pos n v = Some j"
    and L'': "L g' = put (L g) i j (Num w)"
    by (auto simp: set2_square_int [OF sq(1)] split: option.splits)
  from A' ij have A'': "initial_adj g' = put (initial_adj g) i j (Num w)"
    by (auto simp: set2_square_int [OF sq(3)])
  have "P g' = P g \<or> P g' = put (P g) i j (ps @ [u])"
    using P' ij by (cases "u \<in> set ps") (auto simp: set2_square_int [OF sq(2)])
  then have "square n (P g')"
    using sq(2) by (auto simp: square_put)
  then show "loaded n g'"
    using L'' A'' nv n' eq sq by (simp add: loaded_def sized_def square_put)
qed

lemma load_edges_loaded:
  "loaded n g \<Longrightarrow> load_edges g lines is = (g', True) \<Longrightarrow> loaded n g'"
proof (induction "is" arbitrary: g)
  case Nil
  then show ?case by simp
next
  case (Cons i "is")
  show ?case
  proof (cases "2 + i < length lines")
    case False
    then show ?thesis
      using Cons by simp
  next
    case True
    obtain g1 b where e: "load_edge g (lines ! (2 + i)) = (g1, b)"
      by (cases "load_edge g (lines ! (2 + i))") auto
    with Cons.prems True have b: "b" and rest: "load_edges g1 lines is = (g', True)"
      by (auto split: bool.splits)
    have "loaded n g1"
      using Cons.prems(1) e b by (auto intro: load_edge_loaded)
    then show ?thesis
      using rest by (rule Cons.IH)
  qed
qed

lemma load_from_file_loaded:
  assumes "load_from_file g0 file = (g, True)"
  shows "loaded (nat (num_vertices g)) g"
proof -
  from assms obtain lines n m where
    e: "load_edges (fresh_matrices (g0\<lparr>num_vertices := n\<rparr>)) lines m = (g, True)"
    unfolding load_from_file_def Let_def
    by (auto split: option.splits if_splits)
  have "loaded (nat n) (fresh_matrices (g0\<lparr>num_vertices := n\<rparr>))"
    using loaded_fresh [of "g0\<lparr>num_vertices := n\<rparr>"] by simp
  then have l: "loaded (nat n) g"
    using e by (rule load_edges_loaded)
  then have "nat (num_vertices g) = nat n"
    by (simp add: loaded_def sized_def)
  with l show ?thesis by simp
qed

section \<open>\<open>has_negative_cycle\<close> on a graph of size \<open>n\<close>\<close>

lemma first_negative_find:
  "sized n g \<Longrightarrow> \<forall>i \<in> set is. i < n \<Longrightarrow>
   first_negative g is = Some (find (\<lambda>i. wlt (L g ! i ! i) (Num 0)) is)"
  by (induction "is") (auto simp: sized_def get2_square)

lemma has_negative_cycle_sized:
  assumes "sized n g"
  shows "has_negative_cycle g = Some (neg_diag n g)"
proof -
  have "nat (num_vertices g) = n"
    using assms by (simp add: sized_def)
  moreover have "find (\<lambda>i. wlt (L g ! i ! i) (Num 0)) [0..<n] \<noteq> None \<longleftrightarrow> neg_diag n g"
    by (auto simp: find_None_iff neg_diag_def)
  ultimately show ?thesis
    using first_negative_find [OF assms, of "[0..<n]"]
    by (simp add: has_negative_cycle_def)
qed

section \<open>The loop of \<open>floyd_warshall\<close> as one list of steps\<close>

lemma for_each_append:
  "for_each body (xs @ ys) s =
     (case for_each body xs s of None \<Rightarrow> None | Some s' \<Rightarrow> for_each body ys s')"
  by (induction xs arbitrary: s) (auto split: option.splits)

lemma for_each_map: "for_each body (map f xs) s = for_each (\<lambda>x. body (f x)) xs s"
  by (induction xs arbitrary: s) (auto split: option.splits)

lemma for_each_concat:
  "for_each body (concat xss) s = for_each (\<lambda>xs. for_each body xs) xss s"
  by (induction xss arbitrary: s) (auto simp: for_each_append split: option.splits)

lemma for_each_cong:
  "(\<And>x s. x \<in> set xs \<Longrightarrow> f x s = g x s) \<Longrightarrow> for_each f xs s = for_each g xs s"
  by (induction xs arbitrary: s) (auto split: option.splits)

lemma for_each_rows:
  "for_each (\<lambda>i. for_each (\<lambda>j g'. relax g' k i j) js) is s
   = for_each (\<lambda>(k, i, j) g'. relax g' k i j) (map (\<lambda>(i, j). (k, i, j)) (List.product is js)) s"
proof (induction "is" arbitrary: s)
  case Nil
  then show ?case by simp
next
  case (Cons i "is")
  have "for_each (\<lambda>j g'. relax g' k i j) js s
      = for_each (\<lambda>(k, i, j) g'. relax g' k i j) (map (\<lambda>j. (k, i, j)) js) s" for s
    by (simp add: for_each_map)
  then show ?case
    using Cons by (simp add: for_each_append comp_def split: option.splits)
qed

lemma floyd_warshall_steps:
  "floyd_warshall g = relax_steps (triples (nat (num_vertices g))) g"
proof -
  let ?n = "nat (num_vertices g)"
  have "relax_steps (triples ?n) g
      = for_each (\<lambda>k. for_each (\<lambda>(k, i, j) g'. relax g' k i j) (phase_steps ?n k)) [0..<?n] g"
    by (simp add: relax_steps_def triples_def for_each_concat for_each_map)
  also have "\<dots> = for_each (\<lambda>k. for_each (\<lambda>i. for_each (\<lambda>j g'. relax g' k i j) [0..<?n]) [0..<?n])
      [0..<?n] g"
    by (rule for_each_cong) (simp add: for_each_rows phase_steps_def)
  finally show ?thesis
    by (simp add: floyd_warshall_def Let_def)
qed




section \<open>Predecessor lists and finite distances\<close>

lemma add_unique_Nil [simp]: "add_unique t [] = t"
  by (simp add: add_unique_def)

lemma add_unique_Cons:
  "add_unique t (x # xs) = add_unique (if x \<in> set t then t else t @ [x]) xs"
  by (simp add: add_unique_def)

lemma set_add_unique: "set (add_unique t s) = set t \<union> set s"
  by (induction s arbitrary: t) (auto simp: add_unique_Cons)




lemma wadd_less_right: "wlt (wadd d x) x \<Longrightarrow> wlt d (Num 0)"
  by (cases d; cases x) auto



lemma not_neg_diag_start:
  assumes "sized n g" "in_range n ts" "\<not> neg_diag n (run ts g)"
  shows "\<not> neg_diag n g"
proof
  assume "neg_diag n g"
  then obtain i where i: "i < n" "wlt (L g ! i ! i) (Num 0)"
    by (auto simp: neg_diag_def)
  have "wle (L (run ts g) ! i ! i) (L g ! i ! i)"
    using assms(1,2) by (rule wle_L_run)
  then have "wlt (L (run ts g) ! i ! i) (Num 0)"
    using i(2) not_wlt_mono by blast
  then show False
    using assms(3) i(1) by (auto simp: neg_diag_def)
qed


section \<open>Predecessor lists after \<open>load_from_file\<close>\<close>







section \<open>Negative closed walks run along edges of the file\<close>




section \<open>The example files, loaded and closed\<close>

lemma neg2_load: "load_from_file Graph_init neg2_file = (neg2_loaded, True)"
  by code_simp

lemma neg2_close: "floyd_warshall neg2_loaded = Some neg2_closed"
  by code_simp

lemma tie_load: "load_from_file Graph_init tie_file = (tie_loaded, True)"
  by code_simp

lemma tie_close: "floyd_warshall tie_loaded = Some tie_closed"
  by code_simp

lemma loop1_load: "load_from_file Graph_init loop1_file = (loop1_loaded, True)"
  by code_simp

lemma spin_load: "load_from_file Graph_init spin_file = (spin_loaded, True)"
  by code_simp

lemma spin_close: "floyd_warshall spin_loaded = Some spin_closed"
  by code_simp

lemma dead_load: "load_from_file Graph_init dead_file = (dead_loaded, True)"
  by code_simp

lemma dead_close: "floyd_warshall dead_loaded = Some dead_closed"
  by code_simp






section \<open>The cycle reconstruction\<close>




text \<open>
  C6. The docstring of \<open>get_negative_cycle_path\<close> promises \<open>[]\<close> when no cycle can be
  rebuilt. On \<open>spin_file\<close> the walk from vertex \<open>0\<close> runs through all \<open>2n = 6\<close>
  steps of its bound without coming back to \<open>0\<close>, and on \<open>dead_file\<close> it meets the
  empty set \<open>P[0][3]\<close> at its first step; in both cases the list built so far is
  returned, closed, and it does not even hold the start vertex \<open>0\<close>.
\<close>

theorem get_negative_cycle_path_incomplete_walk:
  "load_from_file Graph_init spin_file = (spin_loaded, True)
   \<and> floyd_warshall spin_loaded = Some spin_closed
   \<and> first_negative spin_closed [0..<nat (num_vertices spin_closed)] = Some (Some 0)
   \<and> walk_back spin_closed 0 1 [1] (nat (num_vertices spin_closed * 2)) = Some [1, 2, 1, 2, 1, 2, 1]
   \<and> get_negative_cycle_path spin_closed = Some [1, 2, 1, 2, 1, 2, 1]
   \<and> has_negative_cycle spin_closed = Some True
   \<and> load_from_file Graph_init dead_file = (dead_loaded, True)
   \<and> floyd_warshall dead_loaded = Some dead_closed
   \<and> first_negative dead_closed [0..<nat (num_vertices dead_closed)] = Some (Some 0)
   \<and> get2 (P dead_closed) 0 3 = Some []
   \<and> get_negative_cycle_path dead_closed = Some [3]
   \<and> has_negative_cycle dead_closed = Some True"
proof -
  have "first_negative spin_closed [0..<nat (num_vertices spin_closed)] = Some (Some 0)"
    by code_simp
  moreover have "walk_back spin_closed 0 1 [1] (nat (num_vertices spin_closed * 2))
      = Some [1, 2, 1, 2, 1, 2, 1]"
    by code_simp
  moreover have "get_negative_cycle_path spin_closed = Some [1, 2, 1, 2, 1, 2, 1]"
    by code_simp
  moreover have "has_negative_cycle spin_closed = Some True"
    by code_simp
  moreover have "first_negative dead_closed [0..<nat (num_vertices dead_closed)] = Some (Some 0)"
    by code_simp
  moreover have "get2 (P dead_closed) 0 3 = Some []"
    by code_simp
  moreover have "get_negative_cycle_path dead_closed = Some [3]"
    by code_simp
  moreover have "has_negative_cycle dead_closed = Some True"
    by code_simp
  ultimately show ?thesis
    using spin_load spin_close dead_load dead_close by simp
qed

section \<open>Path enumeration\<close>

lemma those_map_Some:
  "(\<And>x. x \<in> set xs \<Longrightarrow> f x = Some (h x)) \<Longrightarrow> those (map f xs) = Some (map h xs)"
  by (induction xs) auto

lemma concat_skip:
  "concat (map (\<lambda>p. if p = e then [] else h p) ps) = concat (map h (filter (\<lambda>p. p \<noteq> e) ps))"
  by (induction ps) auto

text \<open>
  C3. With \<open>L[start][end]\<close> infinite the result is \<open>[]\<close>; with \<open>start = end\<close> (and a
  finite entry) it is \<open>[[start]]\<close>; otherwise, when the recursive calls for the
  predecessors other than \<open>end\<close> return \<open>sub p\<close>, it is the concatenation, in the
  order of \<open>P[start][end]\<close>, of the paths of \<open>sub p\<close> with \<open>end\<close> appended. On the
  graph with the edges \<open>(0,1,1), (1,2,2), (0,2,3)\<close> the distance from 0 to 2 is 3 and
  the paths are \<open>[0,2]\<close> and \<open>[0,1,2]\<close>.
\<close>

theorem get_all_shortest_paths_cases:
  "(get2 (L g) start endv = Some PInf \<longrightarrow> get_all_shortest_paths (Suc d) g start endv = Some [])
   \<and> (get2 (L g) start start = Some (Num x) \<longrightarrow>
        get_all_shortest_paths (Suc d) g start start = Some [[start]])
   \<and> (get2 (L g) start endv = Some (Num x) \<and> start \<noteq> endv \<and> get2 (P g) start endv = Some preds
        \<and> (\<forall>p \<in> set preds. p \<noteq> endv \<longrightarrow> get_all_shortest_paths d g start p = Some (sub p))
      \<longrightarrow> get_all_shortest_paths (Suc d) g start endv
            = Some (concat (map (\<lambda>p. map (\<lambda>q. q @ [endv]) (sub p))
                              (filter (\<lambda>p. p \<noteq> endv) preds))))
   \<and> load_from_file Graph_init tie_file = (tie_loaded, True)
   \<and> floyd_warshall tie_loaded = Some tie_closed
   \<and> get2 (L tie_closed) 0 2 = Some (Num 3)
   \<and> get_all_shortest_paths 3 tie_closed 0 2 = Some [[0, 2], [0, 1, 2]]"
proof -
  have c3: "get_all_shortest_paths (Suc d) g start endv
            = Some (concat (map (\<lambda>p. map (\<lambda>q. q @ [endv]) (sub p))
                              (filter (\<lambda>p. p \<noteq> endv) preds)))"
    if w: "get2 (L g) start endv = Some (Num x)" and ne: "start \<noteq> endv"
      and ps: "get2 (P g) start endv = Some preds"
      and rec: "\<forall>p \<in> set preds. p \<noteq> endv \<longrightarrow> get_all_shortest_paths d g start p = Some (sub p)"
  proof -
    let ?f = "\<lambda>pred. if pred = endv then Some []
                 else map_option (map (\<lambda>p. p @ [endv])) (get_all_shortest_paths d g start pred)"
    let ?h = "\<lambda>p. if p = endv then [] else map (\<lambda>q. q @ [endv]) (sub p)"
    have "those (map ?f preds) = Some (map ?h preds)"
      by (rule those_map_Some) (use rec in auto)
    then show ?thesis
      using w ne ps by (simp add: concat_skip)
  qed
  have e1: "get2 (L tie_closed) 0 2 = Some (Num 3)"
    by code_simp
  have e2: "get_all_shortest_paths 3 tie_closed 0 2 = Some [[0, 2], [0, 1, 2]]"
    by code_simp
  show ?thesis
    using c3 e1 e2 tie_load tie_close by simp
qed

theorem get_all_shortest_paths_cases_witness:
  "get2 (L tie_closed) 0 1 = Some (Num 1)
   \<and> get2 (P tie_closed) 0 1 = Some [0]
   \<and> get_all_shortest_paths 1 tie_closed 0 0 = Some [[0]]
   \<and> get_all_shortest_paths 2 tie_closed 0 1 = Some [[0, 1]]
   \<and> get2 (L tie_closed) 2 0 = Some PInf
   \<and> get_all_shortest_paths 1 tie_closed 2 0 = Some []"
proof -
  have a: "get2 (L tie_closed) 0 1 = Some (Num 1)" by code_simp
  have b: "get2 (P tie_closed) 0 1 = Some [0]" by code_simp
  have z: "get2 (L tie_closed) 0 0 = Some (Num 0)" by code_simp
  have i: "get2 (L tie_closed) 2 0 = Some PInf" by code_simp
  note t = get_all_shortest_paths_cases
  have c: "get_all_shortest_paths 1 tie_closed 0 0 = Some [[0]]"
    using t [of tie_closed 0 0 0 0] z by simp
  have d: "get_all_shortest_paths 2 tie_closed 0 1 = Some [[0, 1]]"
    using t [of tie_closed 0 1 1 1 "[0]" "\<lambda>p. [[0]]"] a b c
    by (simp add: numeral_2_eq_2)
  have e: "get_all_shortest_paths 1 tie_closed 2 0 = Some []"
    using t [of tie_closed 2 0 0] i by simp
  show ?thesis using a b c d e i by simp
qed

section \<open>One relaxation step\<close>

text \<open>
  C1. The step \<open>(k, i, j) = (0, 0, 0)\<close>, the first of \<open>floyd_warshall\<close>, on the graph of
  \<open>loop1_file\<close>: the candidate \<open>-2\<close> is smaller than \<open>L[0][0] = -1\<close>, and \<open>P[0][0]\<close>,
  which is \<open>P[k][j]\<close> and holds \<open>[0]\<close>, is left empty, because the cell is emptied
  before \<open>P[k][j]\<close> is read and \<open>i = k\<close>.
\<close>

theorem relax_clears_pivot_row_cell:
  "load_from_file Graph_init loop1_file = (loop1_loaded, True)
   \<and> get2 (L loop1_loaded) 0 0 = Some (Num (- 1))
   \<and> get2 (P loop1_loaded) 0 0 = Some [0]
   \<and> relax loop1_loaded 0 0 0
       = Some \<lparr>num_vertices = 1, L = [[Num (- 2)]], P = [[[]]], initial_adj = [[Num (- 1)]]\<rparr>"
proof -
  have "get2 (L loop1_loaded) 0 0 = Some (Num (- 1))" by code_simp
  moreover have "get2 (P loop1_loaded) 0 0 = Some [0]" by code_simp
  moreover have "relax loop1_loaded 0 0 0
       = Some \<lparr>num_vertices = 1, L = [[Num (- 2)]], P = [[[]]], initial_adj = [[Num (- 1)]]\<rparr>"
    by code_simp
  ultimately show ?thesis using loop1_load by simp
qed

section \<open>The closure\<close>



text \<open>
  C4, as the code has it. After the closure of a loaded graph on which
  \<open>has_negative_cycle\<close> is false, \<open>L[i][j] \<le> L[i][k] + L[k][j]\<close> holds for all
  vertices \<open>i, j, k\<close> with \<open>L[i][k]\<close> and \<open>L[k][j]\<close> finite.
\<close>

theorem triangle_inequality_without_negative_cycle:
  assumes "load_from_file g0 file = (g, True)" and "floyd_warshall g = Some g'"
    and "has_negative_cycle g' = Some False"
    and "i < nat (num_vertices g')" "j < nat (num_vertices g')" "k < nat (num_vertices g')"
    and "L g' ! i ! k \<noteq> PInf" "L g' ! k ! j \<noteq> PInf"
  shows "wle (L g' ! i ! j) (wadd (L g' ! i ! k) (L g' ! k ! j))"
proof -
  define n where "n = nat (num_vertices g)"
  have l: "sized n g" "L g = initial_adj g"
    using load_from_file_loaded [OF assms(1)] by (auto simp: loaded_def n_def)
  have g': "g' = run (triples n) g"
    using floyd_warshall_run [OF l(1)] assms(2) by simp
  have s': "sized n g'"
    unfolding g' using l(1) by (rule sized_run)
  then have n': "nat (num_vertices g') = n"
    by (simp add: sized_def)
  have nd: "\<not> neg_diag n (run (triples n) g)"
    using has_negative_cycle_sized [OF s'] assms(3) by (simp add: g')
  have "i < n" "j < n" "k < n"
    using assms(4-6) n' by simp_all
  then show ?thesis
    using triangle_closed [OF l nd, of i j k] assms(7,8) by (simp add: g')
qed

theorem triangle_inequality_without_negative_cycle_witness:
  "has_negative_cycle tie_closed = Some False
   \<and> L tie_closed ! 0 ! 1 = Num 1 \<and> L tie_closed ! 1 ! 2 = Num 2 \<and> L tie_closed ! 0 ! 2 = Num 3
   \<and> wle (L tie_closed ! 0 ! 2) (wadd (L tie_closed ! 0 ! 1) (L tie_closed ! 1 ! 2))"
proof -
  have b: "has_negative_cycle tie_closed = Some False" by code_simp
  have c: "L tie_closed ! 0 ! 1 = Num 1" "L tie_closed ! 1 ! 2 = Num 2" "L tie_closed ! 0 ! 2 = Num 3"
    by (simp_all add: tie_closed_def)
  have n: "(0::nat) < nat (num_vertices tie_closed)" "(1::nat) < nat (num_vertices tie_closed)"
    "(2::nat) < nat (num_vertices tie_closed)"
    by (simp_all add: tie_closed_def)
  have "wle (L tie_closed ! 0 ! 2) (wadd (L tie_closed ! 0 ! 1) (L tie_closed ! 1 ! 2))"
    by (rule triangle_inequality_without_negative_cycle [OF tie_load tie_close b n(1) n(3) n(2)])
       (simp_all add: tie_closed_def)
  then show ?thesis
    using b c by simp
qed

theorem triangle_inequality_counterexample:
  "load_from_file Graph_init neg2_file = (neg2_loaded, True)
   \<and> floyd_warshall neg2_loaded = Some neg2_closed
   \<and> L neg2_closed ! 0 ! 0 = Num (- 1)
   \<and> \<not> wle (L neg2_closed ! 0 ! 0) (wadd (L neg2_closed ! 0 ! 0) (L neg2_closed ! 0 ! 0))"
  using neg2_load neg2_close by (simp add: neg2_closed_def)

section \<open>Predecessor lists and distances during the closure\<close>




section \<open>Failures of \<open>load_from_file\<close>\<close>









section \<open>Predecessors are last edges of shortest walks\<close>

lemma last_walk_append: "last (i # xs @ k # ws) = last (k # ws)"
  by simp

lemma pred_walks_rstep:
  assumes pw: "pred_walks n g0 g" and we: "walk_entries n (initial_adj g0) g"
    and g: "sized n g" and r: "k < n" "i < n" "j < n"
  shows "pred_walks n g0 (rstep g k i j)"
  unfolding pred_walks_def
proof (intro allI impI ballI)
  fix a b p
  assume ab: "a < n" "b < n" and p: "p \<in> set (P (rstep g k i j) ! a ! b)"
  let ?A = "initial_adj g0"
  let ?nd = "wadd (L g ! i ! k) (L g ! k ! j)"
  let ?goal = "\<exists>ws. (\<forall>v \<in> set ws. v < n) \<and> p \<in> set (P g0 ! last (a # ws) ! b)
           \<and> walk_weight ?A a ws b = L (rstep g k i j) ! a ! b"
  have old: ?goal if "p \<in> set (P g ! a ! b)" "L (rstep g k i j) ! a ! b = L g ! a ! b"
    using pw ab that unfolding pred_walks_def by metis
  have via: ?goal
    if c: "a = i" "b = j" "L g ! i ! k \<noteq> PInf" "L g ! k ! j \<noteq> PInf"
      and pk: "p \<in> set (P g ! k ! j)" and l: "L (rstep g k i j) ! i ! j = ?nd"
  proof -
    obtain xs where xs: "\<forall>v \<in> set xs. v < n" "walk_weight ?A i xs k = L g ! i ! k"
      using we r c(3) unfolding walk_entries_def by metis
    obtain ws where ws: "\<forall>v \<in> set ws. v < n" "p \<in> set (P g0 ! last (k # ws) ! j)"
        "walk_weight ?A k ws j = L g ! k ! j"
      using pw r pk unfolding pred_walks_def by metis
    have "\<forall>v \<in> set (xs @ k # ws). v < n"
      using xs ws r by auto
    moreover have "p \<in> set (P g0 ! last (a # xs @ k # ws) ! b)"
      using ws(2) c(2) by (simp only: last_walk_append)
    moreover have "walk_weight ?A a (xs @ k # ws) b = L (rstep g k i j) ! a ! b"
      using xs ws c l by (simp add: walk_weight_append)
    ultimately show ?thesis by blast
  qed
  show ?goal
  proof (cases "a = i \<and> b = j \<and> L g ! i ! k \<noteq> PInf \<and> L g ! k ! j \<noteq> PInf")
    case False
    then have "L (rstep g k i j) ! a ! b = L g ! a ! b" "P (rstep g k i j) ! a ! b = P g ! a ! b"
      by (auto simp: L_rstep [OF g r(2,3)] P_rstep [OF g r(2,3)])
    then show ?thesis
      using old p by simp
  next
    case True
    note c = this
    show ?thesis
    proof (cases "wlt ?nd (L g ! i ! j)")
      case True
      then have l: "L (rstep g k i j) ! i ! j = ?nd"
        using c by (simp add: L_rstep [OF g r(2,3)])
      have "p \<in> set (P g ! k ! j)"
        using p c True by (auto simp: P_rstep [OF g r(2,3)] set_add_unique split: if_splits)
      then show ?thesis
        using via c l by blast
    next
      case False
      then have same: "L (rstep g k i j) ! a ! b = L g ! a ! b"
        by (simp add: L_rstep [OF g r(2,3)])
      show ?thesis
      proof (cases "?nd = L g ! i ! j")
        case True
        then have "p \<in> set (P g ! i ! j) \<or> p \<in> set (P g ! k ! j)"
          using p c False by (auto simp: P_rstep [OF g r(2,3)] set_add_unique)
        moreover have "L (rstep g k i j) ! i ! j = ?nd"
          using same c True by simp
        ultimately show ?thesis
          using via old c same by blast
      next
        case False
        then have "P (rstep g k i j) ! a ! b = P g ! a ! b"
          using \<open>\<not> wlt ?nd (L g ! i ! j)\<close> by (simp add: P_rstep [OF g r(2,3)])
        then show ?thesis
          using old p same by simp
      qed
    qed
  qed
qed

lemma pred_walks_run:
  "pred_walks n g0 g \<Longrightarrow> walk_entries n (initial_adj g0) g \<Longrightarrow> sized n g \<Longrightarrow> in_range n ts
   \<Longrightarrow> pred_walks n g0 (run ts g)"
proof (induction ts arbitrary: g)
  case Nil
  then show ?case by simp
next
  case (Cons t ts)
  obtain k i j where t: "t = (k, i, j)"
    by (cases t) auto
  with Cons.prems have r: "k < n" "i < n" "j < n" "in_range n ts"
    by auto
  have "pred_walks n g0 (run ts (rstep g k i j))"
    using Cons.prems r by (intro Cons.IH pred_walks_rstep walk_entries_rstep sized_rstep)
  then show ?case
    using t by simp
qed

lemma pred_walks_start: "L g = initial_adj g \<Longrightarrow> pred_walks n g g"
  unfolding pred_walks_def
proof (intro allI impI ballI)
  fix i j p
  assume "L g = initial_adj g" "p \<in> set (P g ! i ! j)"
  then have "(\<forall>v \<in> set []. v < n) \<and> p \<in> set (P g ! last (i # []) ! j)
      \<and> walk_weight (initial_adj g) i [] j = L g ! i ! j"
    by simp
  then show "\<exists>ws. (\<forall>v \<in> set ws. v < n) \<and> p \<in> set (P g ! last (i # ws) ! j)
      \<and> walk_weight (initial_adj g) i ws j = L g ! i ! j"
    by blast
qed





section \<open>The recursion of \<open>get_all_shortest_paths\<close> on a closed graph\<close>

















section \<open>A second run of \<open>floyd_warshall\<close>\<close>

lemma add_unique_subset: "set s \<subseteq> set t \<Longrightarrow> add_unique t s = t"
  by (induction s) (auto simp: add_unique_Cons)

lemma put_same: "put m i j (m ! i ! j) = m"
  by (simp add: put_def)

lemma rstep_stable:
  assumes "stable n g" "k < n" "i < n" "j < n"
  shows "rstep g k i j = g"
proof (cases "L g ! i ! k = PInf \<or> L g ! k ! j = PInf")
  case True
  then show ?thesis
    by (auto simp: rstep_def)
next
  case False
  then have a: "\<not> wlt (wadd (L g ! i ! k) (L g ! k ! j)) (L g ! i ! j)"
    and b: "wadd (L g ! i ! k) (L g ! k ! j) = L g ! i ! j
        \<Longrightarrow> set (P g ! k ! j) \<subseteq> set (P g ! i ! j)"
    using assms unfolding stable_def by blast+
  show ?thesis
    using False a b by (auto simp: rstep_def Let_def add_unique_subset put_same)
qed

lemma run_stable: "stable n g \<Longrightarrow> in_range n ts \<Longrightarrow> run ts g = g"
  by (induction ts) (auto simp: rstep_stable)

lemma untouched:
  "sized n g \<Longrightarrow> in_range n ts \<Longrightarrow> \<forall>t \<in> set ts. snd t \<noteq> (a, b) \<Longrightarrow>
   L (run ts g) ! a ! b = L g ! a ! b \<and> P (run ts g) ! a ! b = P g ! a ! b"
proof (induction ts arbitrary: g)
  case Nil
  then show ?case by simp
next
  case (Cons t ts)
  obtain k i j where t: "t = (k, i, j)"
    by (cases t) auto
  with Cons.prems have r: "k < n" "i < n" "j < n" "in_range n ts" and ne: "(i, j) \<noteq> (a, b)"
    by auto
  have "L (rstep g k i j) ! a ! b = L g ! a ! b \<and> P (rstep g k i j) ! a ! b = P g ! a ! b"
    using ne by (auto simp: L_rstep [OF Cons.prems(1) r(2,3)] P_rstep [OF Cons.prems(1) r(2,3)])
  moreover have "L (run ts (rstep g k i j)) ! a ! b = L (rstep g k i j) ! a ! b
      \<and> P (run ts (rstep g k i j)) ! a ! b = P (rstep g k i j) ! a ! b"
    using Cons.prems r by (intro Cons.IH sized_rstep) auto
  ultimately show ?case
    using t by simp
qed

lemma step_keeps:
  assumes g: "sized n g" and r: "i < n" "j < n"
    and same: "L (rstep g k i j) ! i ! j = L g ! i ! j"
  shows "set (P g ! i ! j) \<subseteq> set (P (rstep g k i j) ! i ! j)"
proof -
  have "\<not> (L g ! i ! k \<noteq> PInf \<and> L g ! k ! j \<noteq> PInf
      \<and> wlt (wadd (L g ! i ! k) (L g ! k ! j)) (L g ! i ! j))"
    using same wlt_irrefl by (auto simp: L_rstep [OF g r])
  then show ?thesis
    by (auto simp: P_rstep [OF g r] set_add_unique)
qed

lemma pivot_row_keeps:
  "sized n g \<Longrightarrow> in_range n ts \<Longrightarrow> \<forall>t \<in> set ts. fst t = k \<Longrightarrow> \<not> neg_diag n (run ts g) \<Longrightarrow>
   j < n \<Longrightarrow> p \<in> set (P g ! k ! j) \<Longrightarrow> p \<in> set (P (run ts g) ! k ! j)"
proof (induction ts arbitrary: g)
  case Nil
  then show ?case by simp
next
  case (Cons t ts)
  obtain i b where t: "t = (k, i, b)"
    using Cons.prems(3) by (cases t) auto
  with Cons.prems have r: "k < n" "i < n" "b < n" "in_range n ts"
    by auto
  have nd: "\<not> neg_diag n (run ts (rstep g k i b))"
    using Cons.prems(4) t by simp
  have s1: "sized n (rstep g k i b)"
    using Cons.prems(1) by (rule sized_rstep)
  have "\<not> neg_diag n g"
    using Cons.prems(1,2,4) by (rule not_neg_diag_start)
  then have d: "\<not> wlt (L g ! k ! k) (Num 0)"
    using r by (auto simp: neg_diag_def)
  have "p \<in> set (P (rstep g k i b) ! k ! j)"
  proof (cases "i = k \<and> b = j")
    case False
    then show ?thesis
      using Cons.prems(6) by (auto simp: P_rstep [OF Cons.prems(1) r(2,3)])
  next
    case True
    then have ik: "i = k" "b = j"
      by auto
    have "\<not> wlt (wadd (L g ! k ! k) (L g ! k ! j)) (L g ! k ! j)"
      using d wadd_less_right by blast
    then have "L (rstep g k k j) ! k ! j = L g ! k ! j"
      by (simp add: L_rstep [OF Cons.prems(1) r(1) Cons.prems(5)])
    then have "set (P g ! k ! j) \<subseteq> set (P (rstep g k k j) ! k ! j)"
      using Cons.prems(1) r(1) Cons.prems(5) by (intro step_keeps)
    then show ?thesis
      using Cons.prems(6) ik by auto
  qed
  then have "p \<in> set (P (run ts (rstep g k i b)) ! k ! j)"
    using s1 r(4) Cons.prems(3,5) nd by (intro Cons.IH) auto
  then show ?case
    using t by simp
qed

lemma distinct_phase_steps: "distinct (phase_steps n k)"
  unfolding phase_steps_def
  by (auto simp: distinct_map distinct_product inj_on_def)

lemma fst_phase_steps: "t \<in> set (phase_steps n k) \<Longrightarrow> fst t = k"
  by (auto simp: phase_steps_def)

lemma wadd_nonneg_right: "\<not> wlt d (Num 0) \<Longrightarrow> wle x (wadd x d)"
  by (cases d; cases x) auto

lemma wadd_eq_parts:
  "wle a a' \<Longrightarrow> wle b b' \<Longrightarrow> wadd a b = wadd a' b' \<Longrightarrow> wadd a' b' \<noteq> PInf \<Longrightarrow> a = a' \<and> b = b'"
  by (cases a; cases a'; cases b; cases b') auto

lemma pred_complete_phase:
  assumes g: "sized n g" and k: "k < n" and pc: "pred_complete n k g0 g"
    and bw: "below_walks n k (initial_adj g0) g"
    and nd: "\<not> neg_diag n (run (phase_steps n k) g)"
  shows "pred_complete n (Suc k) g0 (run (phase_steps n k) g)"
  unfolding pred_complete_def
proof (intro allI impI)
  fix i j ws p
  let ?A = "initial_adj g0"
  let ?g' = "run (phase_steps n k) g"
  assume r: "i < n" "j < n"
    and h: "(\<forall>v \<in> set ws. v < Suc k) \<and> p \<in> set (P g0 ! last (i # ws) ! j)
        \<and> walk_weight ?A i ws j = L ?g' ! i ! j \<and> L ?g' ! i ! j \<noteq> PInf"
  then have ws: "\<forall>v \<in> set ws. v < Suc k" and p: "p \<in> set (P g0 ! last (i # ws) ! j)"
    and W: "walk_weight ?A i ws j = L ?g' ! i ! j" and fin: "L ?g' ! i ! j \<noteq> PInf"
    by auto
  have "(k, i, j) \<in> set (phase_steps n k)"
    using r by (auto simp: phase_steps_def)
  then obtain xs' ys' where sp: "phase_steps n k = xs' @ (k, i, j) # ys'"
    by (meson split_list)
  have dist: "(k, i, j) \<notin> set xs'" "(k, i, j) \<notin> set ys'"
    using distinct_phase_steps [of n k] unfolding sp by auto
  have piv: "\<forall>t \<in> set xs'. fst t = k" "\<forall>t \<in> set ys'. fst t = k"
    using fst_phase_steps [of _ n k] unfolding sp by auto
  have other: "\<forall>t \<in> set xs'. snd t \<noteq> (i, j)" "\<forall>t \<in> set ys'. snd t \<noteq> (i, j)"
    using piv dist by (metis prod.collapse)+
  have "in_range n (xs' @ (k, i, j) # ys')"
    using in_range_phase_steps [OF k] sp by simp
  then have rx: "in_range n xs'" and ry: "in_range n ys'"
    by auto
  define g1 where "g1 = run xs' g"
  define g2 where "g2 = rstep g1 k i j"
  have g': "?g' = run ys' g2"
    by (simp add: sp run_append g1_def g2_def)
  have s1: "sized n g1" and s2: "sized n g2"
    using g by (auto simp: g1_def g2_def sized_run sized_rstep)
  have c1: "L g1 ! i ! j = L g ! i ! j" "P g1 ! i ! j = P g ! i ! j"
    unfolding g1_def using untouched [OF g rx other(1)] by auto
  have c2: "L ?g' ! i ! j = L g2 ! i ! j" "P ?g' ! i ! j = P g2 ! i ! j"
    unfolding g' using untouched [OF s2 ry other(2)] by auto
  have "\<not> neg_diag n (run ((k, i, j) # ys') g1)"
    using nd by (simp add: g' g2_def)
  then have nd1: "\<not> neg_diag n g1"
    using s1 by (rule not_neg_diag_start [rotated 2]) (use k r ry in simp)
  then have d1: "\<not> wlt (L g1 ! k ! k) (Num 0)"
    using k by (auto simp: neg_diag_def)
  have "\<not> neg_diag n g"
    using g rx nd1 unfolding g1_def by (rule not_neg_diag_start)
  then have d: "\<not> wlt (L g ! k ! k) (Num 0)"
    using k by (auto simp: neg_diag_def)
  have mono': "wle (L ?g' ! i ! j) (L g ! i ! j)"
    using g in_range_phase_steps [OF k] by (rule wle_L_run)
  show "p \<in> set (P ?g' ! i ! j)"
  proof (cases "k \<in> set ws")
    case False
    then have below: "\<forall>v \<in> set ws. v < k"
      using ws by (metis less_SucE)
    then have "wle (L g ! i ! j) (walk_weight ?A i ws j)"
      using bw r unfolding below_walks_def by blast
    then have eq: "L g ! i ! j = L ?g' ! i ! j"
      using W mono' by (simp add: wle_antisym)
    then have "p \<in> set (P g ! i ! j)"
      using pc r below p W fin unfolding pred_complete_def by metis
    moreover have "L (rstep g1 k i j) ! i ! j = L g1 ! i ! j"
      using eq c1 c2 by (simp add: g2_def)
    ultimately have "p \<in> set (P g2 ! i ! j)"
      using step_keeps [OF s1 r, of k] c1 by (auto simp: g2_def)
    then show ?thesis
      using c2 by simp
  next
    case True
    then obtain xs ys where split: "ws = xs @ k # ys" and lastk: "k \<notin> set ys"
      by (meson split_list_last)
    let ?W1 = "walk_weight ?A i xs k"
    let ?W2 = "walk_weight ?A k ys j"
    have Wsum: "wadd ?W1 ?W2 = L ?g' ! i ! j"
      using W by (simp add: split walk_weight_append)
    have ys: "\<forall>v \<in> set ys. v < k"
      using ws split lastk by (metis UnCI less_SucE list.set_intros(2) set_append)
    have xs: "\<forall>v \<in> set xs. v < Suc k"
      using ws split by auto
    have le2: "wle (L g ! k ! j) ?W2"
      using bw k r ys unfolding below_walks_def by blast
    have "wle (L g ! i ! k) ?W1 \<or> wle (wadd (L g ! i ! k) (L g ! k ! k)) ?W1"
      using bw d k r(1) k xs by (rule walk_through_pivot)
    moreover have "wle (L g ! i ! k) (wadd (L g ! i ! k) (L g ! k ! k))"
      using d by (rule wadd_nonneg_right)
    ultimately have le1: "wle (L g ! i ! k) ?W1"
      by (auto intro: wle_trans)
    let ?nd1 = "wadd (L g1 ! i ! k) (L g1 ! k ! j)"
    let ?nd = "wadd (L g ! i ! k) (L g ! k ! j)"
    have a: "wle (L g2 ! i ! j) ?nd1"
      unfolding g2_def using s1 r by (rule L_rstep_le_sum)
    have b: "wle ?nd1 ?nd"
      unfolding g1_def using g rx by (intro wadd_mono wle_L_run)
    have c: "wle ?nd (L g2 ! i ! j)"
      using wadd_mono [OF le1 le2] Wsum c2 by simp
    have e1: "?nd1 = L g2 ! i ! j"
      using a wle_trans [OF b c] by (simp add: wle_antisym)
    have e2: "?nd = wadd ?W1 ?W2"
      using c wle_trans [OF a b] Wsum c2 by (simp add: wle_antisym)
    have "wadd ?W1 ?W2 \<noteq> PInf"
      using Wsum fin by simp
    then have "L g ! k ! j = ?W2"
      using wadd_eq_parts [OF le1 le2 e2] by simp
    moreover have "L g ! k ! j \<noteq> PInf"
      using e2 \<open>wadd ?W1 ?W2 \<noteq> PInf\<close> by (metis wadd_PInf(2))
    moreover have "p \<in> set (P g0 ! last (k # ys) ! j)"
      using p by (simp add: split)
    ultimately have "p \<in> set (P g ! k ! j)"
      using pc k r(2) ys unfolding pred_complete_def by metis
    then have pk: "p \<in> set (P g1 ! k ! j)"
      unfolding g1_def using g rx piv(1) nd1 [unfolded g1_def] r(2)
      by (intro pivot_row_keeps [where n = n])
    have fin1: "L g1 ! i ! k \<noteq> PInf" "L g1 ! k ! j \<noteq> PInf"
      using e1 c2 fin by (metis wadd_PInf(1), metis wadd_PInf(2))
    have "p \<in> set (P g2 ! i ! j)"
    proof (cases "wlt ?nd1 (L g1 ! i ! j)")
      case True
      have "i \<noteq> k"
        using True d1 wadd_less_right by blast
      then show ?thesis
        using True fin1 pk by (simp add: g2_def P_rstep [OF s1 r] set_add_unique)
    next
      case False
      then have "L g2 ! i ! j = L g1 ! i ! j"
        by (simp add: g2_def L_rstep [OF s1 r])
      then have "?nd1 = L g1 ! i ! j"
        using e1 by simp
      then show ?thesis
        using False fin1 pk by (simp add: g2_def P_rstep [OF s1 r] set_add_unique)
    qed
    then show ?thesis
      using c2 by simp
  qed
qed

lemma pred_complete_start: "pred_complete n 0 g g"
  by (auto simp: pred_complete_def)

lemma pred_complete_phases:
  assumes g: "sized n g" and s: "L g = initial_adj g" and nd: "\<not> neg_diag n (run (triples n) g)"
  shows "k \<le> n \<Longrightarrow> pred_complete n k g (run (concat (map (phase_steps n) [0..<k])) g)"
proof (induction k)
  case 0
  then show ?case
    by (simp add: pred_complete_start)
next
  case (Suc k)
  let ?gk = "run (concat (map (phase_steps n) [0..<k])) g"
  have k: "k < n" using Suc.prems by simp
  have sk: "sized n ?gk"
    using g by (rule sized_run)
  have "run (triples n) g
      = run (concat (map (phase_steps n) [Suc k..<n])) (run (phase_steps n k) ?gk)"
    using k by (simp add: triples_split [of "Suc k" n] run_append)
  then have nk: "\<not> neg_diag n (run (phase_steps n k) ?gk)"
    using not_neg_diag_start [OF sized_run [OF sk] in_range_phases [OF order_refl]] nd
    by metis
  have "pred_complete n (Suc k) g (run (phase_steps n k) ?gk)"
    using sk k _ _ nk
  proof (rule pred_complete_phase)
    show "pred_complete n k g ?gk"
      using Suc by simp
    show "below_walks n k (initial_adj g) ?gk"
      using below_walks_phases [OF g s nd] k by simp
  qed
  then show ?case
    by (simp add: run_append)
qed

lemma stable_closed:
  assumes l: "loaded n g" and nd: "\<not> neg_diag n (run (triples n) g)"
  shows "stable n (run (triples n) g)"
  unfolding stable_def
proof (intro allI impI)
  fix k i j
  let ?g' = "run (triples n) g"
  let ?A = "initial_adj g"
  assume r: "k < n" "i < n" "j < n" and fin: "L ?g' ! i ! k \<noteq> PInf \<and> L ?g' ! k ! j \<noteq> PInf"
  have g: "sized n g" and s: "L g = initial_adj g"
    using l by (auto simp: loaded_def)
  have tri: "wle (L ?g' ! i ! j) (wadd (L ?g' ! i ! k) (L ?g' ! k ! j))"
    using triangle_closed [OF g s nd r(2,3,1)] fin by simp
  have we: "walk_entries n ?A ?g'"
    using walk_entries_start [OF s] g in_range_triples by (rule walk_entries_run)
  have pw: "pred_walks n g ?g'"
    using pred_walks_start [OF s] walk_entries_start [OF s] g in_range_triples
    by (rule pred_walks_run)
  have pc: "pred_complete n n g ?g'"
    using pred_complete_phases [OF g s nd, of n] by (simp add: triples_def)
  have sub: "set (P ?g' ! k ! j) \<subseteq> set (P ?g' ! i ! j)"
    if tie: "wadd (L ?g' ! i ! k) (L ?g' ! k ! j) = L ?g' ! i ! j"
  proof
    fix p
    assume "p \<in> set (P ?g' ! k ! j)"
    then obtain ws where ws: "\<forall>v \<in> set ws. v < n" "p \<in> set (P g ! last (k # ws) ! j)"
        "walk_weight ?A k ws j = L ?g' ! k ! j"
      using pw r unfolding pred_walks_def by metis
    obtain xs where xs: "\<forall>v \<in> set xs. v < n" "walk_weight ?A i xs k = L ?g' ! i ! k"
      using we r fin unfolding walk_entries_def by metis
    have "\<forall>v \<in> set (xs @ k # ws). v < n"
      using xs ws r by auto
    moreover have "p \<in> set (P g ! last (i # xs @ k # ws) ! j)"
      using ws(2) by (simp only: last_walk_append)
    moreover have "walk_weight ?A i (xs @ k # ws) j = L ?g' ! i ! j"
      using xs ws tie by (simp add: walk_weight_append)
    moreover have "L ?g' ! i ! j \<noteq> PInf"
      using tie fin by (metis wadd_finite)
    ultimately show "p \<in> set (P ?g' ! i ! j)"
      using pc r unfolding pred_complete_def by blast
  qed
  show "\<not> wlt (wadd (L ?g' ! i ! k) (L ?g' ! k ! j)) (L ?g' ! i ! j)
      \<and> (wadd (L ?g' ! i ! k) (L ?g' ! k ! j) = L ?g' ! i ! j
            \<longrightarrow> set (P ?g' ! k ! j) \<subseteq> set (P ?g' ! i ! j))"
    using tri sub by (simp add: wle_def)
qed

text \<open>
  C5, as the code has it. When the closure of a loaded graph ends with
  \<open>has_negative_cycle\<close> false, a second run of \<open>floyd_warshall\<close> returns the same graph:
  \<open>L\<close> and \<open>P\<close> (and the other fields) are unchanged.
\<close>

theorem floyd_warshall_twice:
  assumes "load_from_file g0 file = (g, True)" and "floyd_warshall g = Some g'"
    and "has_negative_cycle g' = Some False"
  shows "floyd_warshall g' = Some g'"
proof -
  let ?n = "nat (num_vertices g)"
  have l: "loaded ?n g"
    using assms(1) by (rule load_from_file_loaded)
  then have s: "sized ?n g"
    by (simp add: loaded_def)
  have g': "g' = run (triples ?n) g"
    using floyd_warshall_run [OF s] assms(2) by simp
  have s': "sized ?n g'"
    unfolding g' using s by (rule sized_run)
  have nd: "\<not> neg_diag ?n (run (triples ?n) g)"
    using has_negative_cycle_sized [OF s'] assms(3) by (simp add: g')
  have "stable ?n g'"
    unfolding g' using l nd by (rule stable_closed)
  then have "run (triples ?n) g' = g'"
    using in_range_triples by (rule run_stable)
  then show ?thesis
    using floyd_warshall_run [OF s'] by simp
qed

theorem floyd_warshall_twice_witness:
  "has_negative_cycle tie_closed = Some False \<and> floyd_warshall tie_closed = Some tie_closed"
proof -
  have h: "has_negative_cycle tie_closed = Some False"
    by code_simp
  from floyd_warshall_twice [OF tie_load tie_close h] h show ?thesis
    by simp
qed

theorem floyd_warshall_twice_counterexample:
  "load_from_file Graph_init neg2_file = (neg2_loaded, True)
   \<and> floyd_warshall neg2_loaded = Some neg2_closed
   \<and> floyd_warshall neg2_closed = Some neg2_twice
   \<and> L neg2_closed = [[Num (- 1), Num 0], [Num (- 3), Num (- 2)]]
   \<and> L neg2_twice = [[Num (- 7), Num (- 9)], [Num (- 12), Num (- 14)]]
   \<and> P neg2_closed = [[[1], [0]], [[], []]]
   \<and> P neg2_twice = [[[], []], [[], []]]"
proof -
  have "floyd_warshall neg2_closed = Some neg2_twice"
    by code_simp
  then show ?thesis
    using neg2_load neg2_close by (simp add: neg2_closed_def neg2_twice_def)
qed

end
